theory Spec2Isabelle
  imports Complex_Main "HOL-Library.Word" "HOL-Library.Log_Nat"
begin

section \<open>PackMap3D: the atlas packer\<close>

text \<open>
  A shallow embedding of \<^verbatim>\<open>PackMap3D.py\<close>. Python integers are \<open>int\<close>, byte strings
  are lists of \<open>8 word\<close>, every exception the code can raise is a value of \<open>error\<close>.
  The imaging library (Pillow) is not part of the program: its pixel-level work is a
  parameter of the model (a record of functions), and only what the program reads from an
  image (\<open>width\<close>, \<open>height\<close>, \<open>mode\<close>) is made concrete.
\<close>

subsection \<open>Errors, bytes, images\<close>

type_synonym byte = "8 word"

datatype error =
    LayerCountMismatch nat
      \<comment> \<open>line 69: ValueError, "Expected 4 src PNGs, got n"\<close>
  | LayerSizeMismatch int int string int int
      \<comment> \<open>line 85: ValueError, "All source PNGs must match in size. z0 is WxH, but path is wxh"\<close>
  | StructError
      \<comment> \<open>struct.error: the argument of struct.pack is out of range for its format\<close>
  | ZeroDivisionError
  | OverflowError
      \<comment> \<open>"integer division result too large for a float"\<close>
  | IndexError
  | AssertionError
  | OSError
  | LibraryError string
      \<comment> \<open>whatever the imaging library raises (Image.open, Image.resize)\<close>
  | ConfigurationError string
      \<comment> \<open>lines 204 and 206: ValueError caught by main, which exits with status 2\<close>

record 'p image =
  width :: int
  height :: int
  mode :: string
  pixels :: 'p

type_synonym box = "int \<times> int \<times> int \<times> int"

text \<open>
  The imaging library. \<open>Image_open\<close> is \<^verbatim>\<open>Image.open(path)\<close>; the other fields are
  the pixel-level parts of \<^verbatim>\<open>convert\<close>, \<^verbatim>\<open>crop\<close>, \<^verbatim>\<open>resize(..., resample=BOX)\<close> and
  \<^verbatim>\<open>save(format="PNG", optimize=True, compress_level=9)\<close>. A resize may raise.
\<close>

record 'p pil =
  Image_open :: "string \<Rightarrow> error + 'p image"
  convert_px :: "string \<Rightarrow> 'p image \<Rightarrow> 'p"
  crop_px :: "box \<Rightarrow> 'p image \<Rightarrow> 'p"
  resize_px :: "int \<times> int \<Rightarrow> 'p image \<Rightarrow> error + 'p"
  save_png :: "'p image \<Rightarrow> byte list"

text \<open>
  What the program relies on from the library's documented interface: \<^verbatim>\<open>convert\<close> keeps
  the size and sets the mode, \<^verbatim>\<open>crop((x0, y0, x1, y1))\<close> returns an image of size
  \<open>(x1 - x0, y1 - y0)\<close> in the same mode, \<^verbatim>\<open>resize((w, h))\<close> returns an image of size
  \<open>(w, h)\<close> in the same mode when it returns.
\<close>

definition convert :: "'p pil \<Rightarrow> 'p image \<Rightarrow> string \<Rightarrow> 'p image" where
  "convert L img m = img\<lparr>mode := m, pixels := convert_px L m img\<rparr>"

definition crop :: "'p pil \<Rightarrow> 'p image \<Rightarrow> box \<Rightarrow> 'p image" where
  "crop L img b =
     (case b of (x0, y0, x1, y1) \<Rightarrow>
        \<lparr>width = x1 - x0, height = y1 - y0, mode = mode img, pixels = crop_px L b img\<rparr>)"

definition resize :: "'p pil \<Rightarrow> 'p image \<Rightarrow> int \<times> int \<Rightarrow> error + 'p image" where
  "resize L img sz =
     (case resize_px L sz img of
        Inl e \<Rightarrow> Inl e
      | Inr p \<Rightarrow> Inr \<lparr>width = fst sz, height = snd sz, mode = mode img, pixels = p\<rparr>)"

subsection \<open>Constants\<close>

definition TILE_PX_DEFAULT :: int where
  "TILE_PX_DEFAULT = 256"

definition MAGIC :: "byte list" where
  "MAGIC = [0x41, 0x54, 0x4C, 0x53, 0x76, 0x31, 0x00, 0x00]"

definition VERSION :: int where
  "VERSION = 2"

definition NUM_LAYERS :: int where
  "NUM_LAYERS = 4"

subsection \<open>The tile partitioner\<close>

text \<open>
  \<^verbatim>\<open>a / b\<close> on Python integers is true division: it raises on a zero divisor and
  otherwise returns the double nearest to the exact quotient, ties going to the even
  mantissa, or raises \<^verbatim>\<open>OverflowError\<close> when that double would be \<open>2 ^ 1024\<close> or more in
  magnitude. A double is modelled by its value, a rational. In the binade \<open>e\<close> of the
  quotient (\<open>2 ^ e \<le> |a / b| < 2 ^ (e + 1)\<close>, and \<open>e = - 1022\<close> for everything smaller: the
  subnormals) doubles are \<open>2 ^ (e - 52)\<close> apart; \<open>bitlen\<close> is the number of binary digits.
\<close>

definition round_half_even :: "rat \<Rightarrow> int" where
  "round_half_even y =
     (let n = \<lfloor>y\<rfloor>; d = y - of_int n
      in if d < 1 / 2 then n else if 1 / 2 < d then n + 1 else if even n then n else n + 1)"

definition binade :: "int \<Rightarrow> int \<Rightarrow> int" where
  "binade a b =
     (let d = bitlen \<bar>a\<bar> - bitlen \<bar>b\<bar>
      in if (2 :: rat) powi d * of_int \<bar>b\<bar> \<le> of_int \<bar>a\<bar> then d else d - 1)"

definition int_truediv :: "int \<Rightarrow> int \<Rightarrow> error + rat" where
  "int_truediv a b =
     (if b = 0 then Inl ZeroDivisionError
      else
        let e = max (binade a b) (- 1022);
            ulp = (2 :: rat) powi (e - 52);
            x = of_int (round_half_even (of_int a / of_int b / ulp)) * ulp
        in if 2 ^ 1024 \<le> \<bar>x\<bar> then Inl OverflowError else Inr x)"

text \<open>\<^verbatim>\<open>ceil(a / b)\<close>: \<^verbatim>\<open>math.ceil\<close> of a double is the exact ceiling of its value.\<close>

definition ceil_truediv :: "int \<Rightarrow> int \<Rightarrow> error + int" where
  "ceil_truediv a b = (case int_truediv a b of Inl e \<Rightarrow> Inl e | Inr x \<Rightarrow> Inr \<lceil>x\<rceil>)"

text \<open>
  The ceiling of the exact quotient, in integer arithmetic (\<open>div\<close> floors). It is not in
  the program: \<open>ceil_quot_real\<close> shows it is the mathematical ceiling, and
  \<open>ceil_truediv_exact\<close> that the program computes it when both operands are below
  \<open>2 ^ 53\<close>, as they are inside the packer, where they have passed
  \<^verbatim>\<open>struct.pack("<I", ...)\<close>.
\<close>

definition ceil_quot :: "int \<Rightarrow> int \<Rightarrow> int" where
  "ceil_quot a b = - ((- a) div b)"

text \<open>
  \<^verbatim>\<open>range(n)\<close> is \<open>[0..n - 1]\<close>, empty when \<open>n \<le> 0\<close>. The generator is modelled by
  the list of what it yields, in order; the two divisions run when the first element is
  asked for.
\<close>

definition iter_tiles :: "'p image \<Rightarrow> int \<Rightarrow> error + (int \<times> int \<times> box) list" where
  "iter_tiles img tile_px =
     (case ceil_truediv (width img) tile_px of
        Inl e \<Rightarrow> Inl e
      | Inr tiles_x \<Rightarrow>
     (case ceil_truediv (height img) tile_px of
        Inl e \<Rightarrow> Inl e
      | Inr tiles_y \<Rightarrow>
          Inr (concat (map (\<lambda>ty.
                 let y0 = ty * tile_px;
                     y1 = min (y0 + tile_px) (height img)
                 in map (\<lambda>tx.
                      let x0 = tx * tile_px;
                          x1 = min (x0 + tile_px) (width img)
                      in (tx, ty, (x0, y0, x1, y1)))
                    [0..tiles_x - 1])
               [0..tiles_y - 1]))))"

text \<open>The pixels of a bounding box: left and top edges included, right and bottom excluded.\<close>

definition box_pixels :: "box \<Rightarrow> (int \<times> int) set" where
  "box_pixels b = (case b of (x0, y0, x1, y1) \<Rightarrow> {x0..<x1} \<times> {y0..<y1})"

text \<open>The tile at column \<open>tx\<close> and row \<open>ty\<close> of a \<open>W \<times> H\<close> raster, as the loop body builds it.\<close>

definition tile_of :: "int \<Rightarrow> int \<Rightarrow> int \<Rightarrow> int \<Rightarrow> int \<Rightarrow> int \<times> int \<times> box" where
  "tile_of W H t tx ty =
     (tx, ty, (tx * t, ty * t, min (tx * t + t) W, min (ty * t + t) H))"

subsection \<open>Encoding and downsampling\<close>

definition encode_png_bytes :: "'p pil \<Rightarrow> 'p image \<Rightarrow> byte list \<times> int \<times> int" where
  "encode_png_bytes L tile_img =
     (let tile_img' = (if mode tile_img \<noteq> ''RGBA'' then convert L tile_img ''RGBA''
                       else tile_img);
          data = save_png L tile_img'
      in (data, width tile_img', height tile_img'))"

text \<open>\<^verbatim>\<open>//\<close> floors, as \<open>div\<close> does, and raises on a zero divisor.\<close>

definition build_downsampled :: "'p pil \<Rightarrow> 'p image \<Rightarrow> int \<Rightarrow> error + 'p image" where
  "build_downsampled L img subsample =
     (if subsample = 1 then Inr img
      else if subsample = 0 then Inl ZeroDivisionError
      else resize L img (width img div subsample, height img div subsample))"

subsection \<open>struct.pack and the output file\<close>

text \<open>
  \<^verbatim>\<open>struct.pack("<I", v)\<close> and \<^verbatim>\<open>struct.pack("<Q", v)\<close>: 4 and 8 bytes, least
  significant first; a value outside the format's range raises \<^verbatim>\<open>struct.error\<close>.
  \<open>le_int\<close> is the inverse reading (\<^verbatim>\<open>struct.unpack\<close>), used to state what the
  header holds.
\<close>

fun le_bytes :: "nat \<Rightarrow> int \<Rightarrow> byte list" where
  "le_bytes 0 v = []"
| "le_bytes (Suc n) v = word_of_int v # le_bytes n (v div 256)"

fun le_int :: "byte list \<Rightarrow> int" where
  "le_int [] = 0"
| "le_int (b # bs) = uint b + 256 * le_int bs"

definition struct_pack_I :: "int \<Rightarrow> error + byte list" where
  "struct_pack_I v = (if 0 \<le> v \<and> v < 2 ^ 32 then Inr (le_bytes 4 v) else Inl StructError)"

definition struct_pack_Q :: "int \<Rightarrow> error + byte list" where
  "struct_pack_Q v = (if 0 \<le> v \<and> v < 2 ^ 64 then Inr (le_bytes 8 v) else Inl StructError)"

text \<open>
  The binary file object: its bytes and the stream position. A write replaces the bytes
  under the position and extends the file past its end (a gap left by a seek beyond the
  end reads as zeros).
\<close>

record bfile =
  contents :: "byte list"
  position :: nat

definition f_write :: "byte list \<Rightarrow> bfile \<Rightarrow> bfile" where
  "f_write bs f =
     (if bs = [] then f
      else \<lparr>contents = take (position f) (contents f)
                        @ replicate (position f - length (contents f)) 0
                        @ bs
                        @ drop (position f + length bs) (contents f),
            position = position f + length bs\<rparr>)"

definition f_tell :: "bfile \<Rightarrow> int" where
  "f_tell f = int (position f)"

definition f_seek :: "int \<Rightarrow> bfile \<Rightarrow> error + bfile" where
  "f_seek n f = (if n < 0 then Inl OSError else Inr (f\<lparr>position := nat n\<rparr>))"

text \<open>
  A run of statements \<^verbatim>\<open>f.write(struct.pack(...))\<close>: each byte string is computed, then
  written; the first failing \<^verbatim>\<open>struct.pack\<close> stops the run and leaves the file as the
  writes before it made it.
\<close>

fun write_each :: "(error + byte list) list \<Rightarrow> bfile \<Rightarrow> error \<times> bfile + bfile" where
  "write_each [] f = Inr f"
| "write_each (x # xs) f =
     (case x of Inl e \<Rightarrow> Inl (e, f) | Inr bs \<Rightarrow> write_each xs (f_write bs f))"

subsection \<open>The atlas writer\<close>

text \<open>
  An index entry, the list \<^verbatim>\<open>[subsample, z, tx, ty, w, h, None, len(png_bytes)]\<close> of line
  128 with the names of line 151 and of the format description; slot 6 is \<^verbatim>\<open>None\<close>
  until the offsets are resolved.
\<close>

record entry =
  e_lod :: int
  e_z :: int
  tile_x :: int
  tile_y :: int
  pixel_w :: int
  pixel_h :: int
  rel_offset :: "int option"
  byte_length :: int

text \<open>
  Lines 75 to 90: open each path, normalise to RGBA, take the size of the first image as
  the reference and compare every later one with it.
\<close>

fun load_layers ::
  "'p pil \<Rightarrow> string list \<Rightarrow> (int \<times> int) option \<Rightarrow> 'p image list \<Rightarrow>
   error + ('p image list \<times> (int \<times> int) option)" where
  "load_layers L [] dims base_images = Inr (base_images, dims)"
| "load_layers L (path # rest) dims base_images =
     (case Image_open L path of
        Inl e \<Rightarrow> Inl e
      | Inr img0 \<Rightarrow>
          let img = (if mode img0 \<noteq> ''RGBA'' then convert L img0 ''RGBA'' else img0)
          in (case dims of
                None \<Rightarrow>
                  load_layers L rest (Some (width img, height img)) (base_images @ [img])
              | Some (w, h) \<Rightarrow>
                  if width img \<noteq> w \<or> height img \<noteq> h
                  then Inl (LayerSizeMismatch w h path (width img) (height img))
                  else load_layers L rest dims (base_images @ [img])))"

text \<open>Lines 115 to 122: the rasters of one LOD, one per layer index.\<close>

fun downsample_layers ::
  "'p pil \<Rightarrow> 'p image list \<Rightarrow> int \<Rightarrow> int list \<Rightarrow> error + 'p image list" where
  "downsample_layers L base_images subsample [] = Inr []"
| "downsample_layers L base_images subsample (z # zs) =
     (if nat z < length base_images then
        (let img = base_images ! nat z
         in case (if subsample = 1 then Inr img else build_downsampled L img subsample) of
              Inl e \<Rightarrow> Inl e
            | Inr base \<Rightarrow>
                (case downsample_layers L base_images subsample zs of
                   Inl e \<Rightarrow> Inl e
                 | Inr bases \<Rightarrow> Inr (base # bases)))
      else Inl IndexError)"

text \<open>Lines 125 to 129: crop, encode and record each tile of one raster.\<close>

fun append_tiles ::
  "'p pil \<Rightarrow> int \<Rightarrow> int \<Rightarrow> 'p image \<Rightarrow> (int \<times> int \<times> box) list \<Rightarrow>
   entry list \<times> byte list list \<Rightarrow> entry list \<times> byte list list" where
  "append_tiles L subsample z base [] acc = acc"
| "append_tiles L subsample z base ((tx, ty, b) # ts) acc =
     (let tile = crop L base b;
          (png_bytes, w, h) = encode_png_bytes L tile
      in append_tiles L subsample z base ts
           (fst acc @ [\<lparr>e_lod = subsample, e_z = z, tile_x = tx, tile_y = ty,
                        pixel_w = w, pixel_h = h, rel_offset = None,
                        byte_length = int (length png_bytes)\<rparr>],
            snd acc @ [png_bytes]))"

text \<open>Lines 124 to 135: every layer of one LOD (closing a raster changes nothing here).\<close>

fun tile_layers ::
  "'p pil \<Rightarrow> int \<Rightarrow> int \<Rightarrow> (nat \<times> 'p image) list \<Rightarrow>
   entry list \<times> byte list list \<Rightarrow> error + entry list \<times> byte list list" where
  "tile_layers L tile_px subsample [] acc = Inr acc"
| "tile_layers L tile_px subsample ((z, base) # rest) acc =
     (case iter_tiles base tile_px of
        Inl e \<Rightarrow> Inl e
      | Inr ts \<Rightarrow>
          tile_layers L tile_px subsample rest (append_tiles L subsample (int z) base ts acc))"

text \<open>Lines 114 to 135: the LOD loop, in the order of the list it is given.\<close>

fun pack_lods ::
  "'p pil \<Rightarrow> 'p image list \<Rightarrow> int \<Rightarrow> int list \<Rightarrow>
   entry list \<times> byte list list \<Rightarrow> error + entry list \<times> byte list list" where
  "pack_lods L base_images tile_px [] acc = Inr acc"
| "pack_lods L base_images tile_px (subsample # rest) acc =
     (case downsample_layers L base_images subsample [0..NUM_LAYERS - 1] of
        Inl e \<Rightarrow> Inl e
      | Inr downsampled_layers \<Rightarrow>
          (case tile_layers L tile_px subsample (enumerate 0 downsampled_layers) acc of
             Inl e \<Rightarrow> Inl e
           | Inr acc' \<Rightarrow> pack_lods L base_images tile_px rest acc'))"

text \<open>Lines 146 to 149: the running cursor over the payload lengths.\<close>

fun assign_offsets ::
  "entry list \<Rightarrow> byte list list \<Rightarrow> nat \<Rightarrow> int \<Rightarrow> error + entry list" where
  "assign_offsets [] tile_data_blobs i cursor = Inr []"
| "assign_offsets (e # es) tile_data_blobs i cursor =
     (if i < length tile_data_blobs then
        (case assign_offsets es tile_data_blobs (Suc i)
                (cursor + int (length (tile_data_blobs ! i))) of
           Inl err \<Rightarrow> Inl err
         | Inr es' \<Rightarrow> Inr (e\<lparr>rel_offset := Some cursor\<rparr> # es'))
      else Inl IndexError)"

text \<open>Lines 152 to 159: the eight fields of one index record, 36 bytes when all pack.\<close>

definition entry_fields :: "entry \<Rightarrow> (error + byte list) list" where
  "entry_fields e =
     [struct_pack_I (e_lod e), struct_pack_I (e_z e), struct_pack_I (tile_x e),
      struct_pack_I (tile_y e), struct_pack_I (pixel_w e), struct_pack_I (pixel_h e),
      (case rel_offset e of None \<Rightarrow> Inl StructError | Some r \<Rightarrow> struct_pack_Q r),
      struct_pack_I (byte_length e)]"

text \<open>Lines 93 to 107: the header, with zeros in the two offset fields.\<close>

definition write_header ::
  "int \<Rightarrow> int \<Rightarrow> int \<Rightarrow> int list \<Rightarrow> bfile \<Rightarrow> error \<times> bfile + bfile" where
  "write_header w h tile_px lods f =
     (case write_each
             ([Inr MAGIC, struct_pack_I VERSION, struct_pack_I w, struct_pack_I h,
               struct_pack_I tile_px, struct_pack_I (int (length lods))]
              @ map struct_pack_I lods) f of
        Inl x \<Rightarrow> Inl x
      | Inr f1 \<Rightarrow>
     (case ceil_truediv w tile_px of
        Inl e \<Rightarrow> Inl (e, f1)
      | Inr tiles_x_full \<Rightarrow>
     (case ceil_truediv h tile_px of
        Inl e \<Rightarrow> Inl (e, f1)
      | Inr tiles_y_full \<Rightarrow>
          write_each [struct_pack_I tiles_x_full, struct_pack_I tiles_y_full,
                      struct_pack_I NUM_LAYERS, struct_pack_Q 0, struct_pack_Q 0] f1)))"

text \<open>The local variables of a run that reached the end of \<^verbatim>\<open>pack_atlas_3d\<close>.\<close>

record 'p atlas_run =
  base_images :: "'p image list"
  src_width :: int
  src_height :: int
  header_end :: int
  index_entries :: "entry list"
  tile_data_blobs :: "byte list list"
  index_offset :: int
  data_offset :: int

text \<open>
  Lines 93 to 181: the body of the \<^verbatim>\<open>with\<close> block, on the freshly opened file. The
  locals \<^verbatim>\<open>base_images\<close>, \<^verbatim>\<open>width\<close>, \<^verbatim>\<open>height\<close>, \<^verbatim>\<open>header_end\<close>, \<^verbatim>\<open>index_offset\<close>
  and \<^verbatim>\<open>data_offset\<close> are \<open>imgs\<close>, \<open>w\<close>, \<open>h\<close>, \<open>hdr_end\<close>, \<open>idx_offset\<close> and
  \<open>dat_offset\<close> here (their own names are fields of the records); \<open>entries0\<close> is
  \<^verbatim>\<open>index_entries\<close> before the offsets are assigned. Nothing is written between the
  header and the index, so both \<^verbatim>\<open>f.tell()\<close> read the position the header left.
\<close>

definition write_atlas ::
  "'p pil \<Rightarrow> 'p image list \<Rightarrow> int \<Rightarrow> int \<Rightarrow> int \<Rightarrow> int list \<Rightarrow> bfile \<Rightarrow>
   error \<times> bfile + 'p atlas_run \<times> bfile" where
  "write_atlas L imgs w h tile_px lods f0 =
     (case write_header w h tile_px lods f0 of
        Inl x \<Rightarrow> Inl x
      | Inr f1 \<Rightarrow>
     (let hdr_end = f_tell f1 in
     (case pack_lods L imgs tile_px lods ([], []) of
        Inl e \<Rightarrow> Inl (e, f1)
      | Inr (entries0, blobs) \<Rightarrow>
     (let idx_offset = f_tell f1;
          entry_size = 36;
          index_size = int (length entries0) * entry_size;
          dat_offset = idx_offset + index_size
      in
     (case assign_offsets entries0 blobs 0 0 of
        Inl e \<Rightarrow> Inl (e, f1)
      | Inr entries \<Rightarrow>
     (case write_each (concat (map entry_fields entries)) f1 of
        Inl x \<Rightarrow> Inl x
      | Inr f2 \<Rightarrow>
     (if f_tell f2 \<noteq> dat_offset then Inl (AssertionError, f2)
      else
     (case write_each (map Inr blobs) f2 of
        Inl x \<Rightarrow> Inl x
      | Inr f3 \<Rightarrow>
     (case f_seek (hdr_end - 16) f3 of
        Inl e \<Rightarrow> Inl (e, f3)
      | Inr f4 \<Rightarrow>
     (case write_each [struct_pack_Q idx_offset, struct_pack_Q dat_offset] f4 of
        Inl x \<Rightarrow> Inl x
      | Inr f5 \<Rightarrow>
          Inr (\<lparr>base_images = imgs, src_width = w, src_height = h, header_end = hdr_end,
                index_entries = entries, tile_data_blobs = blobs,
                index_offset = idx_offset, data_offset = dat_offset\<rparr>, f5)))))))))))"

text \<open>
  \<^verbatim>\<open>pack_atlas_3d\<close>. The result pairs the outcome with the output file: \<open>None\<close> when
  the output path was never opened, \<open>Some bytes\<close> once \<^verbatim>\<open>open(out_atlas_path, "wb")\<close>
  has run (the path is taken to be writable). The reference size is unset only when the
  loading loop never ran, which the length check excludes; \<^verbatim>\<open>struct.pack("<I", None)\<close>
  would then raise after the first two writes.
\<close>

definition pack_atlas_3d ::
  "'p pil \<Rightarrow> string list \<Rightarrow> int \<Rightarrow> int list \<Rightarrow> (error + 'p atlas_run) \<times> byte list option" where
  "pack_atlas_3d L src_png_paths tile_px lods =
     (if int (length src_png_paths) \<noteq> NUM_LAYERS
      then (Inl (LayerCountMismatch (length src_png_paths)), None)
      else
        (case load_layers L src_png_paths None [] of
           Inl e \<Rightarrow> (Inl e, None)
         | Inr (imgs, dims) \<Rightarrow>
             (case dims of
                None \<Rightarrow> (Inl StructError, Some (MAGIC @ le_bytes 4 VERSION))
              | Some (w, h) \<Rightarrow>
                  (case write_atlas L imgs w h tile_px lods \<lparr>contents = [], position = 0\<rparr> of
                     Inl (e, f) \<Rightarrow> (Inl e, Some (contents f))
                   | Inr (run, f) \<Rightarrow> (Inr run, Some (contents f))))))"

text \<open>
  Lines 202 to 206 of \<^verbatim>\<open>main\<close>: the check of the parsed LOD list (the splitting of the
  option string and \<^verbatim>\<open>int()\<close> come before it and are not modelled).
\<close>

fun lod_values_allowed :: "int list \<Rightarrow> error + unit" where
  "lod_values_allowed [] = Inr ()"
| "lod_values_allowed (v # vs) =
     (if v \<noteq> 1 \<and> v \<noteq> 2 \<and> v \<noteq> 4
      then Inl (ConfigurationError ''LOD values must be subset of 1,2,4'')
      else lod_values_allowed vs)"

definition main_check_lods :: "int list \<Rightarrow> error + int list" where
  "main_check_lods lods =
     (case lod_values_allowed lods of
        Inl e \<Rightarrow> Inl e
      | Inr u \<Rightarrow>
          if lods = [] then Inl (ConfigurationError ''At least one LOD required'')
          else Inr lods)"


subsection \<open>What a run produces, written without the loops\<close>

text \<open>
  The functions of this subsection are not in the program: they name what its loops
  compute, so that the properties below can be stated. Each is tied to the program by a
  lemma (\<open>iter_tiles_grid\<close>, \<open>append_tiles_eq\<close>, \<open>tile_layers_eq\<close>, \<open>pack_lods_Inr\<close>,
  \<open>write_atlas_Inr\<close>).
\<close>

text \<open>The size of an axis of the raster of LOD \<open>s\<close>.\<close>

definition lod_dim :: "int \<Rightarrow> int \<Rightarrow> int" where
  "lod_dim d s = (if s = 1 then d else d div s)"

text \<open>The tiles of a \<open>W \<times> H\<close> raster, rows outside, columns inside.\<close>

definition raster_tiles :: "int \<Rightarrow> int \<Rightarrow> int \<Rightarrow> (int \<times> int \<times> box) list" where
  "raster_tiles W H t =
     concat (map (\<lambda>j. map (\<lambda>i. tile_of W H t (int i) (int j)) [0..<nat (ceil_quot W t)])
                 [0..<nat (ceil_quot H t)])"

definition tile_entry :: "'p pil \<Rightarrow> int \<Rightarrow> int \<Rightarrow> 'p image \<Rightarrow> int \<times> int \<times> box \<Rightarrow> entry" where
  "tile_entry L subsample z base tle =
     (case tle of (tx, ty, b) \<Rightarrow>
        (case encode_png_bytes L (crop L base b) of (png_bytes, w, h) \<Rightarrow>
           \<lparr>e_lod = subsample, e_z = z, tile_x = tx, tile_y = ty, pixel_w = w, pixel_h = h,
            rel_offset = None, byte_length = int (length png_bytes)\<rparr>))"

definition tile_blob :: "'p pil \<Rightarrow> 'p image \<Rightarrow> int \<times> int \<times> box \<Rightarrow> byte list" where
  "tile_blob L base tle = fst (encode_png_bytes L (crop L base (snd (snd tle))))"

definition layer_entries :: "'p pil \<Rightarrow> int \<Rightarrow> int \<Rightarrow> nat \<times> 'p image \<Rightarrow> entry list" where
  "layer_entries L t s zb =
     map (tile_entry L s (int (fst zb)) (snd zb))
         (raster_tiles (width (snd zb)) (height (snd zb)) t)"

definition layer_blobs :: "'p pil \<Rightarrow> int \<Rightarrow> nat \<times> 'p image \<Rightarrow> byte list list" where
  "layer_blobs L t zb =
     map (tile_blob L (snd zb)) (raster_tiles (width (snd zb)) (height (snd zb)) t)"

definition lod_rasters :: "'p pil \<Rightarrow> 'p image list \<Rightarrow> int \<Rightarrow> 'p image list" where
  "lod_rasters L imgs s =
     map (\<lambda>z. projr (build_downsampled L (imgs ! nat z) s)) [0..NUM_LAYERS - 1]"

definition lod_entries :: "'p pil \<Rightarrow> 'p image list \<Rightarrow> int \<Rightarrow> int \<Rightarrow> entry list" where
  "lod_entries L imgs t s = concat (map (layer_entries L t s) (enumerate 0 (lod_rasters L imgs s)))"

definition lod_blobs :: "'p pil \<Rightarrow> 'p image list \<Rightarrow> int \<Rightarrow> int \<Rightarrow> byte list list" where
  "lod_blobs L imgs t s = concat (map (layer_blobs L t) (enumerate 0 (lod_rasters L imgs s)))"

text \<open>The number of tiles of one layer at LOD \<open>s\<close>, and of index entries of a run.\<close>

definition tiles_per_layer :: "int \<Rightarrow> int \<Rightarrow> int \<Rightarrow> int \<Rightarrow> nat" where
  "tiles_per_layer W H t s =
     nat (ceil_quot (lod_dim W s) t) * nat (ceil_quot (lod_dim H s) t)"

definition num_entries :: "int \<Rightarrow> int \<Rightarrow> int \<Rightarrow> int list \<Rightarrow> nat" where
  "num_entries W H t lods = sum_list (map (\<lambda>s. 4 * tiles_per_layer W H t s) lods)"

text \<open>The key of an index entry, and the keys of one LOD for a base raster of size \<open>W \<times> H\<close>.\<close>

definition entry_key :: "entry \<Rightarrow> int \<times> int \<times> int \<times> int" where
  "entry_key e = (e_lod e, e_z e, tile_x e, tile_y e)"

definition lod_keys :: "int \<Rightarrow> int \<Rightarrow> int \<Rightarrow> int \<Rightarrow> (int \<times> int \<times> int \<times> int) list" where
  "lod_keys W H t s =
     concat (map (\<lambda>z. map (\<lambda>tle. (s, int z, fst tle, fst (snd tle)))
                           (raster_tiles (lod_dim W s) (lod_dim H s) t))
                 [0..<4])"

text \<open>The bytes of the header and of an index record, as the format lays them out.\<close>

definition header_prefix :: "int \<Rightarrow> int \<Rightarrow> int \<Rightarrow> int list \<Rightarrow> byte list" where
  "header_prefix w h t lods =
     MAGIC @ le_bytes 4 VERSION @ le_bytes 4 w @ le_bytes 4 h @ le_bytes 4 t
     @ le_bytes 4 (int (length lods)) @ concat (map (le_bytes 4) lods)
     @ le_bytes 4 (ceil_quot w t) @ le_bytes 4 (ceil_quot h t) @ le_bytes 4 NUM_LAYERS"

definition header_bytes :: "int \<Rightarrow> int \<Rightarrow> int \<Rightarrow> int list \<Rightarrow> int \<Rightarrow> int \<Rightarrow> byte list" where
  "header_bytes w h t lods idx_off dat_off =
     header_prefix w h t lods @ le_bytes 8 idx_off @ le_bytes 8 dat_off"

definition entry_bytes :: "entry \<Rightarrow> byte list" where
  "entry_bytes e =
     le_bytes 4 (e_lod e) @ le_bytes 4 (e_z e) @ le_bytes 4 (tile_x e) @ le_bytes 4 (tile_y e)
     @ le_bytes 4 (pixel_w e) @ le_bytes 4 (pixel_h e) @ le_bytes 8 (the (rel_offset e))
     @ le_bytes 4 (byte_length e)"

text \<open>
  A stand-in imaging library for closed examples: every path opens as an RGB image of the
  size \<open>sizes\<close> gives it, a resize to an empty size raises (as Pillow's does), and the
  encoder is \<open>enc\<close>.
\<close>

definition stub_pil :: "(string \<Rightarrow> int \<times> int) \<Rightarrow> (unit image \<Rightarrow> byte list) \<Rightarrow> unit pil" where
  "stub_pil sizes enc =
     \<lparr>Image_open = (\<lambda>path. Inr \<lparr>width = fst (sizes path), height = snd (sizes path),
                                   mode = ''RGB'', pixels = ()\<rparr>),
      convert_px = (\<lambda>m img. ()),
      crop_px = (\<lambda>b img. ()),
      resize_px = (\<lambda>sz img. if fst sz < 1 \<or> snd sz < 1
                              then Inl (LibraryError ''height and width must be > 0'')
                              else Inr ()),
      save_png = enc\<rparr>"

text \<open>
  The library of the closed examples: every layer is 5 by 3 pixels and a payload has one
  byte per pixel of its tile (at most 9).
\<close>

definition demo_pil :: "unit pil" where
  "demo_pil = stub_pil (\<lambda>p. (5, 3)) (\<lambda>img. replicate (nat (min (width img * height img) 9)) 7)"

section \<open>Properties\<close>

subsection \<open>Ceiling division and the tile grid\<close>

lemma ceil_quot_real: "ceil_quot a b = \<lceil>real_of_int a / real_of_int b\<rceil>"
proof -
  have "\<lceil>real_of_int a / real_of_int b\<rceil> = - \<lfloor>real_of_int (- a) / real_of_int b\<rfloor>"
    by (simp add: ceiling_def)
  also have "\<dots> = - ((- a) div b)"
    by (simp only: floor_divide_of_int_eq)
  finally show ?thesis by (simp add: ceil_quot_def)
qed

lemma upto_as_upt: "[0..n - 1] = map int [0..<nat n]"
proof (cases "0 \<le> n")
  case True
  then obtain m where n: "n = int m" using nonneg_int_cases by blast
  have "[0..int m - 1] = map int [0..<m]"
  proof (induction m)
    case 0 show ?case by simp
  next
    case (Suc m)
    have "[0..int (Suc m) - 1] = [0..int m - 1] @ [int m]"
      using upto_rec2 [of 0 "int m"] by simp
    with Suc show ?case by simp
  qed
  with n show ?thesis by simp
next
  case False then show ?thesis by simp
qed

lemma length_grid:
  "length (concat (map (\<lambda>j. map (\<lambda>i. g i j) [0..<m]) [0..<n])) = m * n"
  by (induction n) simp_all

lemma nth_grid:
  "k < m * n \<Longrightarrow>
   concat (map (\<lambda>j. map (\<lambda>i. g i j) [0..<m]) [0..<n]) ! k = g (k mod m) (k div m)"
proof (induction n)
  case 0 then show ?case by simp
next
  case (Suc n)
  let ?pre = "concat (map (\<lambda>j. map (\<lambda>i. g i j) [0..<m]) [0..<n])"
  have len: "length ?pre = m * n" by (rule length_grid)
  have m: "0 < m" using Suc.prems by (cases m) simp_all
  show ?case
  proof (cases "k < m * n")
    case True
    with Suc.IH len show ?thesis by (simp add: nth_append)
  next
    case False
    then have ge: "m * n \<le> k" by simp
    have lt: "k - m * n < m" using Suc.prems ge by simp
    have kd: "k div m = n"
      using ge Suc.prems m by (metis div_nat_eqI)
    have km: "k mod m = k - m * n"
      using kd by (metis minus_mult_div_eq_mod)
    show ?thesis using False len lt kd km by (simp add: nth_append)
  qed
qed

lemma ceil_quot_bounds:
  assumes "0 < t"
  shows "(ceil_quot a t - 1) * t < a" and "a \<le> ceil_quot a t * t"
proof -
  define q where "q = (- a) div t"
  define r where "r = (- a) mod t"
  have m: "0 \<le> r" "r < t" using assms by (simp_all add: r_def)
  have e: "- a = q * t + r" by (simp add: q_def r_def)
  have c: "ceil_quot a t = - q" by (simp add: ceil_quot_def q_def)
  have "a = - q * t - r" using e by simp
  then show "(ceil_quot a t - 1) * t < a" and "a \<le> ceil_quot a t * t"
    using m unfolding c by (simp_all add: algebra_simps)
qed

lemma ceil_quot_nonneg: "0 < t \<Longrightarrow> 0 \<le> a \<Longrightarrow> 0 \<le> ceil_quot a t"
  unfolding ceil_quot_def using neg_imp_zdiv_nonneg_iff
  by (smt (verit) div_le_mono div_0 zdiv_mono1)

lemma ceil_quot_zero_iff: "0 < t \<Longrightarrow> 0 \<le> a \<Longrightarrow> ceil_quot a t = 0 \<longleftrightarrow> a = 0"
  using ceil_quot_bounds [of t a] by (smt (verit) mult_nonneg_nonneg ceil_quot_nonneg mult_eq_0_iff mult_pos_pos)

text \<open>Rounding to the nearest integer, ties to even.\<close>

lemma round_half_even_le:
  assumes "y \<le> of_int m"
  shows "round_half_even y \<le> m"
proof -
  have f: "\<lfloor>y\<rfloor> \<le> m" using assms by (simp add: floor_le_iff) 
  show ?thesis
  proof (cases "y = of_int \<lfloor>y\<rfloor>")
    case True
    then have "y - of_int \<lfloor>y\<rfloor> = 0" by simp
    then show ?thesis using f by (simp add: round_half_even_def Let_def)
  next
    case False
    moreover have "of_int \<lfloor>y\<rfloor> \<le> y" by (rule of_int_floor_le)
    ultimately have "of_int \<lfloor>y\<rfloor> < y" by (metis order_le_neq_trans)
    then have "of_int \<lfloor>y\<rfloor> < (of_int m :: rat)" using assms by simp
    then have "\<lfloor>y\<rfloor> < m" by simp
    then show ?thesis by (simp add: round_half_even_def Let_def)
  qed
qed

lemma round_half_even_gt:
  assumes "of_int m + 1 / 2 < y"
  shows "m < round_half_even y"
proof -
  have m: "m \<le> \<lfloor>y\<rfloor>" using assms by (simp add: le_floor_iff)
  show ?thesis
  proof (cases "m = \<lfloor>y\<rfloor>")
    case True
    then have "1 / 2 < y - of_int \<lfloor>y\<rfloor>" using assms by simp
    then show ?thesis using True by (simp add: round_half_even_def Let_def)
  next
    case False
    with m have "m < \<lfloor>y\<rfloor>" by simp
    then show ?thesis by (simp add: round_half_even_def Let_def)
  qed
qed


lemma round_half_even_0: "round_half_even 0 = 0"
  by (simp add: round_half_even_def)

text \<open>The binade brackets the quotient.\<close>

lemma binade_bounds:
  assumes "a \<noteq> 0" "b \<noteq> 0"
  shows "(2 :: rat) powi binade a b * of_int \<bar>b\<bar> \<le> of_int \<bar>a\<bar>"
    and "of_int \<bar>a\<bar> < (2 :: rat) powi (binade a b + 1) * of_int \<bar>b\<bar>"
proof -
  define p where "p = \<bar>a\<bar>"
  define q where "q = \<bar>b\<bar>"
  have pq: "0 < p" "0 < q" using assms by (simp_all add: p_def q_def)
  define m where "m = bitlen p"
  define n where "n = bitlen q"
  define d where "d = m - n"
  have m1: "1 \<le> m" and n1: "1 \<le> n"
    using pq bitlen_eq_zero_iff [of p] bitlen_eq_zero_iff [of q] bitlen_nonneg [of p]
      bitlen_nonneg [of q]
    by (simp_all add: m_def n_def)
  have bp: "2 ^ nat (m - 1) \<le> p" "p < 2 ^ nat m"
    using bitlen_bounds [OF pq(1)] by (simp_all add: m_def)
  have bq: "2 ^ nat (n - 1) \<le> q" "q < 2 ^ nat n"
    using bitlen_bounds [OF pq(2)] by (simp_all add: n_def)
  have P: "(2 :: rat) powi (m - 1) \<le> of_int p" "of_int p < (2 :: rat) powi m"
  proof -
    have "(of_int (2 ^ nat (m - 1)) :: rat) \<le> of_int p" using bp(1) by (simp only: of_int_le_iff)
    then show "(2 :: rat) powi (m - 1) \<le> of_int p" using m1 by (simp add: power_int_def)
    have "(of_int p :: rat) < of_int (2 ^ nat m)" using bp(2) by (simp only: of_int_less_iff)
    then show "of_int p < (2 :: rat) powi m" using m1 by (simp add: power_int_def)
  qed
  have Q: "(2 :: rat) powi (n - 1) \<le> of_int q" "of_int q < (2 :: rat) powi n"
  proof -
    have "(of_int (2 ^ nat (n - 1)) :: rat) \<le> of_int q" using bq(1) by (simp only: of_int_le_iff)
    then show "(2 :: rat) powi (n - 1) \<le> of_int q" using n1 by (simp add: power_int_def)
    have "(of_int q :: rat) < of_int (2 ^ nat n)" using bq(2) by (simp only: of_int_less_iff)
    then show "of_int q < (2 :: rat) powi n" using n1 by (simp add: power_int_def)
  qed
  have pos: "(0 :: rat) < 2 powi k" for k by simp
  \<comment> \<open>\<open>2 ^ (d - 1) * q < p < 2 ^ (d + 1) * q\<close>\<close>
  have lo: "(2 :: rat) powi (d - 1) * of_int q < of_int p"
  proof -
    have "(2 :: rat) powi (d - 1) * of_int q < 2 powi (d - 1) * 2 powi n"
      by (rule mult_strict_left_mono [OF Q(2) pos])
    also have "\<dots> = 2 powi (m - 1)"
      by (simp add: d_def power_int_add [symmetric])
    also have "\<dots> \<le> of_int p" by (rule P(1))
    finally show ?thesis .
  qed
  have hi: "of_int p < (2 :: rat) powi (d + 1) * of_int q"
  proof -
    have "of_int p < (2 :: rat) powi m" by (rule P(2))
    also have "\<dots> = 2 powi (d + 1) * 2 powi (n - 1)"
      by (simp add: d_def power_int_add [symmetric])
    also have "\<dots> \<le> 2 powi (d + 1) * of_int q"
      by (rule mult_left_mono [OF Q(1) less_imp_le [OF pos]])
    finally show ?thesis .
  qed
  have b: "binade a b = (if (2 :: rat) powi d * of_int q \<le> of_int p then d else d - 1)"
    by (simp add: binade_def Let_def d_def m_def n_def p_def q_def)
  show "(2 :: rat) powi binade a b * of_int \<bar>b\<bar> \<le> of_int \<bar>a\<bar>"
    unfolding b p_def [symmetric] q_def [symmetric] using lo by (simp add: less_imp_le)
  show "of_int \<bar>a\<bar> < (2 :: rat) powi (binade a b + 1) * of_int \<bar>b\<bar>"
    unfolding b p_def [symmetric] q_def [symmetric] using hi by (auto simp: not_le)
qed


text \<open>Below \<open>2 ^ 53\<close> the double quotient has the ceiling of the exact quotient.\<close>

lemma ceil_truediv_exact:
  assumes a: "0 \<le> a" "a < 2 ^ 53" and b: "0 < b" "b < 2 ^ 53"
  shows "ceil_truediv a b = Inr (ceil_quot a b)"
proof (cases "a = 0")
  case True
  then show ?thesis
    using b by (simp add: ceil_truediv_def int_truediv_def Let_def round_half_even_0 ceil_quot_def)
next
  case False
  with a have a0: "0 < a" by simp
  define e where "e = binade a b"
  define J where "J = nat (52 - e)"
  define U :: rat where "U = 2 ^ J"
  define k where "k = ceil_quot a b"
  have B: "(2 :: rat) powi e * of_int b \<le> of_int a" "of_int a < (2 :: rat) powi (e + 1) * of_int b"
    using binade_bounds [of a b] a0 b(1) by (simp_all add: e_def)
  have ra: "(of_int a :: rat) < 2 ^ 53" "(1 :: rat) \<le> of_int a"
    using a(2) a0 by (simp_all add: of_int_less_numeral_power_cancel_iff)
  have rb: "(of_int b :: rat) < 2 ^ 53" "(1 :: rat) \<le> of_int b" "(0 :: rat) < of_int b"
    using b by (simp_all add: of_int_less_numeral_power_cancel_iff)
  \<comment> \<open>the binade is between \<open>- 53\<close> and \<open>52\<close>\<close>
  have e_hi: "e \<le> 52"
  proof (rule ccontr)
    assume "\<not> e \<le> 52"
    then have "53 \<le> e" by simp
    then have "(2 :: rat) powi 53 \<le> 2 powi e" by (intro power_int_increasing) simp_all
    then have "(2 :: rat) ^ 53 * 1 \<le> 2 powi e * of_int b"
      using rb(2) by (intro mult_mono) simp_all
    with B(1) ra(1) show False by simp
  qed
  have e_lo: "- 53 \<le> e"
  proof (rule ccontr)
    assume "\<not> - 53 \<le> e"
    then have "e + 1 \<le> - 53" by simp
    then have "(2 :: rat) powi (e + 1) \<le> 2 powi (- 53)" by (intro power_int_increasing) simp_all
    then have "(2 :: rat) powi (e + 1) * of_int b \<le> 2 powi (- 53) * 2 ^ 53"
      using rb by (intro mult_mono) simp_all
    also have "\<dots> = 1" by (simp add: power_int_minus)
    finally show False using B(2) ra(2) by simp
  qed
  have U0: "0 < U" by (simp add: U_def)
  have Upow: "U = 2 powi (52 - e)" using e_hi by (simp add: U_def J_def power_int_def)
  have ulp: "(2 :: rat) powi (max e (- 1022) - 52) = 1 / U"
  proof -
    have "max e (- 1022) - 52 = - (52 - e)" using e_lo by simp
    then show ?thesis by (simp only: power_int_minus Upow inverse_eq_divide)
  qed
  have bU: "of_int b < 2 * U"
  proof -
    have "2 powi e * of_int b * (2 :: rat) powi (52 - e) < 2 ^ 53 * 2 powi (52 - e)"
      using B(1) ra(1) by (intro mult_strict_right_mono) simp_all
    moreover have "2 powi e * of_int b * (2 :: rat) powi (52 - e) = 2 ^ 52 * of_int b"
    proof -
      have "(2 :: rat) powi e * 2 powi (52 - e) = 2 powi (e + (52 - e))"
        by (subst power_int_add) simp_all
      then show ?thesis by (simp add: mult.assoc mult.left_commute)
    qed
    ultimately have "(2 :: rat) ^ 52 * of_int b < 2 ^ 52 * (2 * U)" by (simp add: Upow)
    then show ?thesis by (simp only: mult_less_cancel_left_pos zero_less_power zero_less_numeral)
  qed
  have K: "(k - 1) * b < a" "a \<le> k * b"
    using ceil_quot_bounds [OF b(1), of a] by (simp_all add: k_def)
  have k1: "1 \<le> k"
  proof (rule ccontr)
    assume "\<not> 1 \<le> k"
    then have "k * b \<le> 0" using b(1) by (simp add: mult_nonpos_nonneg)
    with K(2) a0 show False by simp
  qed
  define y :: rat where "y = of_int a / of_int b * U"
  define n where "n = round_half_even y"
  have UJ: "U = of_int (2 ^ J)" by (simp add: U_def)
  \<comment> \<open>the rounded mantissa is above \<open>(k - 1) * U\<close> and at most \<open>k * U\<close>\<close>
  have up: "n \<le> k * 2 ^ J"
  proof -
    have "of_int a \<le> (of_int (k * b) :: rat)" using K(2) by (simp only: of_int_le_iff)
    then have "of_int a / of_int b \<le> (of_int k :: rat)"
      using rb(3) by (simp add: divide_le_eq)
    then have "y \<le> of_int k * U" unfolding y_def using U0 by (intro mult_right_mono) simp_all
    then have "y \<le> of_int (k * 2 ^ J)" by (simp add: UJ)
    then show ?thesis unfolding n_def by (rule round_half_even_le)
  qed
  have lo: "(k - 1) * 2 ^ J < n"
  proof -
    have "(k - 1) * b + 1 \<le> a" using K(1) by simp
    then have "(of_int ((k - 1) * b + 1) :: rat) \<le> of_int a" by (simp only: of_int_le_iff)
    then have "of_int (k - 1) * of_int b + 1 \<le> (of_int a :: rat)" by simp
    then have "(of_int (k - 1) * of_int b + 1) / of_int b \<le> (of_int a :: rat) / of_int b"
      using rb(3) by (intro divide_right_mono) simp_all
    then have "of_int (k - 1) + 1 / of_int b \<le> (of_int a :: rat) / of_int b"
      using rb(3) by (simp add: add_divide_distrib)
    then have le1: "(of_int (k - 1) + 1 / of_int b) * U \<le> y"
      unfolding y_def using U0 by (intro mult_right_mono) simp_all
    have e1: "(of_int (k - 1) + 1 / of_int b) * U = of_int (k - 1) * U + U / of_int b"
      by (simp add: distrib_right)
    have h: "1 / 2 < U / of_int b"
      using bU rb(3) by (simp add: less_divide_eq)
    from le1 e1 h have "of_int (k - 1) * U + 1 / 2 < y" by linarith
    then have "of_int ((k - 1) * 2 ^ J) + 1 / 2 < y" by (simp add: UJ)
    then show ?thesis unfolding n_def by (rule round_half_even_gt)
  qed
  define x :: rat where "x = of_int n * (1 / U)"
  have xk: "x \<le> of_int k"
  proof -
    have "(of_int n :: rat) \<le> of_int (k * 2 ^ J)" using up by (simp only: of_int_le_iff)
    then have "(of_int n :: rat) \<le> of_int k * U" by (simp add: UJ)
    then show ?thesis unfolding x_def using U0 by (simp add: divide_le_eq)
  qed
  have kx: "of_int k - 1 < x"
  proof -
    have "(of_int ((k - 1) * 2 ^ J) :: rat) < of_int n" using lo by (simp only: of_int_less_iff)
    then have "(of_int k - 1) * U < (of_int n :: rat)" by (simp add: UJ)
    then show ?thesis unfolding x_def using U0 by (simp add: less_divide_eq)
  qed
  have ceil: "\<lceil>x\<rceil> = k" using xk kx by (intro ceiling_unique) simp_all
  have x0: "0 \<le> x" using kx k1 by simp
  have small: "\<not> 2 ^ 1024 \<le> \<bar>x\<bar>"
  proof -
    have "k \<le> a"
    proof -
      have "(k - 1) * 1 \<le> (k - 1) * b" using k1 b(1) by (intro mult_left_mono) simp_all
      with K(1) show ?thesis by simp
    qed
    then have "(of_int k :: rat) \<le> of_int a" by (simp only: of_int_le_iff)
    with xk ra(1) have "x < 2 ^ 53" by simp
    moreover have "(2 :: rat) ^ 53 \<le> 2 ^ 1024" by simp
    ultimately show ?thesis using x0 by simp
  qed
  have q: "of_int a / of_int b / (1 / U) = y" by (simp add: y_def)
  have bz: "b \<noteq> 0" using b(1) by simp
  have raw: "of_int (round_half_even
                 (of_int a / of_int b / (2 :: rat) powi (max (binade a b) (- 1022) - 52)))
               * (2 :: rat) powi (max (binade a b) (- 1022) - 52) = x"
    unfolding e_def [symmetric] ulp q n_def [symmetric] x_def ..
  have "int_truediv a b = Inr x"
    unfolding int_truediv_def Let_def raw using bz small by (simp only: if_False)
  then show ?thesis by (simp add: ceil_truediv_def ceil k_def)
qed

text \<open>A quotient below \<open>2 ^ - 1075\<close> rounds to the double \<open>0.0\<close>.\<close>

lemma ceil_truediv_underflow:
  assumes a: "0 < a" and b: "0 < b" and small: "a * 2 ^ 1075 < b"
  shows "ceil_truediv a b = Inr 0"
proof -
  define e where "e = binade a b"
  have ra: "(0 :: rat) < of_int a" and rb: "(0 :: rat) < of_int b" using a b by simp_all
  have B: "(2 :: rat) powi e * of_int b \<le> of_int a"
    using binade_bounds(1) [of a b] a b by (simp add: e_def)
  have S: "(of_int a :: rat) * 2 ^ 1075 < of_int b"
  proof -
    have "(of_int (a * 2 ^ 1075) :: rat) < of_int b" using small by (simp only: of_int_less_iff)
    then show ?thesis by simp
  qed
  have e_lo: "e < - 1075"
  proof (rule ccontr)
    assume "\<not> e < - 1075"
    then have "(2 :: rat) powi (- 1075) \<le> 2 powi e" by (intro power_int_increasing) simp_all
    then have "(2 :: rat) powi (- 1075) * of_int b \<le> 2 powi e * of_int b"
      using rb by (intro mult_right_mono) simp_all
    with B have "(2 :: rat) powi (- 1075) * of_int b \<le> of_int a" by simp
    then have "of_int b \<le> (of_int a :: rat) * 2 ^ 1075"
      by (simp add: power_int_minus field_simps)
    with S show False by simp
  qed
  then have m: "max e (- 1022) = - 1022" by simp
  define y :: rat where "y = of_int a / of_int b / 2 powi (- 1022 - 52)"
  have y: "y = of_int a * 2 ^ 1074 / of_int b"
    by (simp add: y_def power_int_minus field_simps)
  have y0: "0 \<le> y" using ra rb by (simp add: y)
  have y1: "y < 1 / 2"
  proof -
    have "(of_int a :: rat) * 2 ^ 1074 * 2 < of_int b" using S by simp
    then have "(of_int a :: rat) * 2 ^ 1074 < of_int b / 2" by simp
    then show ?thesis using rb by (simp add: y divide_less_eq)
  qed
  have f: "\<lfloor>y\<rfloor> = 0" using y0 y1 by (intro floor_unique) simp_all
  have r: "round_half_even y = 0" using y1 by (simp add: round_half_even_def f)
  have bz: "b \<noteq> 0" using b by simp
  have raw: "of_int (round_half_even
                 (of_int a / of_int b / (2 :: rat) powi (max (binade a b) (- 1022) - 52)))
               * (2 :: rat) powi (max (binade a b) (- 1022) - 52) = 0"
    unfolding e_def [symmetric] m y_def [symmetric] r by simp
  have "int_truediv a b = Inr 0"
    unfolding int_truediv_def Let_def raw using bz by simp
  then show ?thesis by (simp add: ceil_truediv_def)
qed

lemma binade_unique:
  assumes a: "0 < a" and b: "0 < b"
    and lo: "(2 :: rat) powi e * of_int b \<le> of_int a"
    and hi: "of_int a < (2 :: rat) powi (e + 1) * of_int b"
  shows "binade a b = e"
proof -
  define d where "d = binade a b"
  have rb: "(0 :: rat) < of_int b" using b by simp
  have B: "(2 :: rat) powi d * of_int b \<le> of_int a" "of_int a < (2 :: rat) powi (d + 1) * of_int b"
    using binade_bounds [of a b] a b by (simp_all add: d_def)
  have "d < e + 1"
  proof (rule ccontr)
    assume "\<not> d < e + 1"
    then have "(2 :: rat) powi (e + 1) \<le> 2 powi d" by (intro power_int_increasing) simp_all
    then have "(2 :: rat) powi (e + 1) * of_int b \<le> 2 powi d * of_int b"
      using rb by (intro mult_right_mono) simp_all
    with B(1) hi show False by simp
  qed
  moreover have "e < d + 1"
  proof (rule ccontr)
    assume "\<not> e < d + 1"
    then have "(2 :: rat) powi (d + 1) \<le> 2 powi e" by (intro power_int_increasing) simp_all
    then have "(2 :: rat) powi (d + 1) * of_int b \<le> 2 powi e * of_int b"
      using rb by (intro mult_right_mono) simp_all
    with B(2) lo show False by simp
  qed
  ultimately show ?thesis by (simp add: d_def)
qed

text \<open>A tie: \<open>(2 ^ 53 + 1) / 2 ^ 52\<close> lies halfway between the doubles \<open>2\<close> and
  \<open>2 + 2 ^ - 51\<close> and rounds to the even one.\<close>

lemma ceil_truediv_tie: "ceil_truediv (2 ^ 53 + 1) (2 ^ 52) = Inr 2"
proof -
  define a :: int where "a = 2 ^ 53 + 1"
  define b :: int where "b = 2 ^ 52"
  have a0: "0 < a" and b0: "0 < b" by (simp_all add: a_def b_def)
  have bin: "binade a b = 1"
    by (rule binade_unique [OF a0 b0]) (simp_all add: a_def b_def)
  have m: "max (1 :: int) (- 1022) - 52 = - 51" by simp
  have q: "(of_int a :: rat) / of_int b / 2 powi (- 51) = 2 ^ 52 + 1 / 2"
    by (simp add: a_def b_def power_int_minus)
  have f: "\<lfloor>(2 :: rat) ^ 52 + 1 / 2\<rfloor> = 2 ^ 52"
    by (rule floor_unique) simp_all
  have r: "round_half_even ((2 :: rat) ^ 52 + 1 / 2) = 2 ^ 52"
    unfolding round_half_even_def f by (simp add: Let_def)
  have v: "of_int ((2 :: int) ^ 52) * (2 :: rat) powi (- 51) = 2"
    by (simp add: power_int_minus)
  have raw: "of_int (round_half_even
                 (of_int a / of_int b / (2 :: rat) powi (max (binade a b) (- 1022) - 52)))
               * (2 :: rat) powi (max (binade a b) (- 1022) - 52) = 2"
    unfolding bin m q r v ..
  have "int_truediv a b = Inr 2"
    unfolding int_truediv_def Let_def raw using b0 by simp
  then have "ceil_truediv a b = Inr 2" by (simp add: ceil_truediv_def)
  then show ?thesis unfolding a_def b_def .
qed

text \<open>A quotient of \<open>2 ^ 1024\<close> or more has no double: \<^verbatim>\<open>2 ** 1100 / 1\<close> raises.\<close>

lemma ceil_truediv_overflow: "ceil_truediv (2 ^ 1100) 1 = Inl OverflowError"
proof -
  define a :: int where "a = 2 ^ 1100"
  have a0: "0 < a" by (simp add: a_def)
  have ra: "(of_int a :: rat) = 2 ^ 1100" by (simp add: a_def)
  have bin: "binade a 1 = 1100"
    by (rule binade_unique [OF a0]) (simp_all add: ra)
  have m: "max (1100 :: int) (- 1022) - 52 = 1048" by simp
  have q: "(of_int a :: rat) / of_int 1 / 2 powi 1048 = of_int (2 ^ 52)"
    by (simp add: ra)
  have r: "round_half_even (of_int (2 ^ 52)) = 2 ^ 52"
    unfolding round_half_even_def by (simp add: Let_def)
  have v: "of_int ((2 :: int) ^ 52) * (2 :: rat) powi 1048 = 2 ^ 1100"
    by simp
  have raw: "of_int (round_half_even
                 (of_int a / of_int 1 / (2 :: rat) powi (max (binade a 1) (- 1022) - 52)))
               * (2 :: rat) powi (max (binade a 1) (- 1022) - 52) = 2 ^ 1100"
    unfolding bin m q r v ..
  have "int_truediv a 1 = Inl OverflowError"
    unfolding int_truediv_def Let_def raw by simp
  then have "ceil_truediv a 1 = Inl OverflowError" by (simp add: ceil_truediv_def)
  then show ?thesis unfolding a_def .
qed

lemma ceil_truediv_zero: "ceil_truediv a 0 = Inl ZeroDivisionError"
  by (simp add: ceil_truediv_def int_truediv_def)

lemma iter_tiles_grid:
  assumes "0 \<le> width img" "width img < 2 ^ 53" "0 \<le> height img" "height img < 2 ^ 53"
    and "0 < t" "t < 2 ^ 53"
  shows "iter_tiles img t = Inr (raster_tiles (width img) (height img) t)"
  by (simp add: iter_tiles_def ceil_truediv_exact [OF assms(1,2,5,6)]
      ceil_truediv_exact [OF assms(3,4,5,6)] upto_as_upt raster_tiles_def tile_of_def
      Let_def comp_def)

lemma int_image_upt: "int ` {0..<nat m} = {0..<m}"
proof (rule set_eqI)
  fix i
  show "i \<in> int ` {0..<nat m} \<longleftrightarrow> i \<in> {0..<m}"
  proof
    assume "i \<in> int ` {0..<nat m}"
    then obtain k where "i = int k" "k < nat m" by auto
    then show "i \<in> {0..<m}" by simp
  next
    assume "i \<in> {0..<m}"
    then have "i = int (nat i)" "nat i < nat m" by simp_all
    then show "i \<in> int ` {0..<nat m}" by (metis atLeastLessThan_iff image_eqI zero_le)
  qed
qed

lemma set_grid:
  "set (concat (map (\<lambda>j. map (\<lambda>i. g (int i) (int j)) [0..<nat m]) [0..<nat n])) =
   (\<Union>j\<in>{0..<n}. (\<lambda>i. g i j) ` {0..<m})"
proof -
  have "set (concat (map (\<lambda>j. map (\<lambda>i. g (int i) (int j)) [0..<nat m]) [0..<nat n])) =
        (\<Union>j\<in>{0..<nat n}. (\<lambda>i. g (int i) (int j)) ` {0..<nat m})"
    by simp
  also have "\<dots> = (\<Union>j\<in>{0..<nat n}. (\<lambda>i. g i (int j)) ` (int ` {0..<nat m}))"
    by (simp only: image_image)
  also have "\<dots> = (\<Union>j\<in>int ` {0..<nat n}. (\<lambda>i. g i j) ` (int ` {0..<nat m}))"
    by (simp only: UN_simps image_image)
  finally show ?thesis by (simp only: int_image_upt)
qed

lemma div_eq_iff_int:
  fixes x t q :: int
  assumes "0 < t"
  shows "x div t = q \<longleftrightarrow> q * t \<le> x \<and> x < q * t + t"
proof
  assume "x div t = q"
  then have "x = q * t + x mod t" by (metis div_mult_mod_eq)
  moreover have "0 \<le> x mod t" "x mod t < t" using assms by simp_all
  ultimately show "q * t \<le> x \<and> x < q * t + t" by linarith
next
  assume a: "q * t \<le> x \<and> x < q * t + t"
  show "x div t = q"
    using a assms by (intro int_div_pos_eq [where r = "x - q * t"]) (simp_all add: algebra_simps)
qed

lemma div_less_ceil_quot:
  assumes "0 < t" "0 \<le> x" "x < a"
  shows "x div t < ceil_quot a t"
proof (rule ccontr)
  assume "\<not> x div t < ceil_quot a t"
  then have "ceil_quot a t \<le> x div t" by simp
  then have "ceil_quot a t * t \<le> x div t * t" using assms(1) by (simp add: mult_right_mono)
  also have "\<dots> \<le> x" using div_eq_iff_int [OF assms(1), of x "x div t"] by simp
  finally show False using ceil_quot_bounds(2) [OF assms(1), of a] assms(3) by linarith
qed

lemma tile_pixels:
  assumes t: "0 < t" and tx: "0 \<le> tx" "tx < ceil_quot W t" and ty: "0 \<le> ty" "ty < ceil_quot H t"
  shows "(x, y) \<in> box_pixels (snd (snd (tile_of W H t tx ty))) \<longleftrightarrow>
         0 \<le> x \<and> x < W \<and> 0 \<le> y \<and> y < H \<and> x div t = tx \<and> y div t = ty"
proof -
  have nn: "0 \<le> tx * t" "0 \<le> ty * t" using t tx ty by simp_all
  have m: "(x, y) \<in> box_pixels (snd (snd (tile_of W H t tx ty))) \<longleftrightarrow>
        (tx * t \<le> x \<and> x < tx * t + t \<and> x < W) \<and> (ty * t \<le> y \<and> y < ty * t + t \<and> y < H)"
    by (simp add: box_pixels_def tile_of_def)
  show ?thesis
    unfolding m div_eq_iff_int [OF t] using nn by linarith
qed

lemma tile_nonempty:
  assumes t: "0 < t" and tx: "0 \<le> tx" "tx < ceil_quot W t" and ty: "0 \<le> ty" "ty < ceil_quot H t"
  shows "tx * t < min (tx * t + t) W" and "ty * t < min (ty * t + t) H"
proof -
  have "tx * t \<le> (ceil_quot W t - 1) * t" using tx t by (simp add: mult_right_mono)
  then have "tx * t < W" using ceil_quot_bounds(1) [OF t, of W] by linarith
  then show "tx * t < min (tx * t + t) W" using t by simp
  have "ty * t \<le> (ceil_quot H t - 1) * t" using ty t by (simp add: mult_right_mono)
  then have "ty * t < H" using ceil_quot_bounds(1) [OF t, of H] by linarith
  then show "ty * t < min (ty * t + t) H" using t by simp
qed


subsection \<open>Bytes and the file\<close>

lemma length_le_bytes: "length (le_bytes n v) = n"
  by (induction n arbitrary: v) simp_all

lemma le_int_le_bytes: "0 \<le> v \<Longrightarrow> v < 256 ^ n \<Longrightarrow> le_int (le_bytes n v) = v"
proof (induction n arbitrary: v)
  case 0 then show ?case by simp
next
  case (Suc n)
  have d: "0 \<le> v div 256" "v div 256 < 256 ^ n"
    using Suc.prems by (simp_all add: div_less_iff_less_mult mult.commute)
  have "uint (word_of_int v :: byte) = v mod 256"
    by (simp add: uint_word_of_int)
  then show ?case using Suc.IH [OF d] by simp
qed

lemma struct_pack_I_Inr:
  "struct_pack_I v = Inr bs \<Longrightarrow> 0 \<le> v \<and> v < 2 ^ 32 \<and> bs = le_bytes 4 v \<and> length bs = 4"
  by (auto simp: struct_pack_I_def length_le_bytes split: if_splits)

lemma struct_pack_Q_Inr:
  "struct_pack_Q v = Inr bs \<Longrightarrow> 0 \<le> v \<and> v < 2 ^ 64 \<and> bs = le_bytes 8 v \<and> length bs = 8"
  by (auto simp: struct_pack_Q_def length_le_bytes split: if_splits)

lemma f_write_at_end:
  "position f = length (contents f) \<Longrightarrow>
   f_write bs f = \<lparr>contents = contents f @ bs, position = length (contents f) + length bs\<rparr>"
  by (simp add: f_write_def)

lemma f_write_inside:
  "contents f = a @ b @ c \<Longrightarrow> position f = length a \<Longrightarrow> length bs = length b \<Longrightarrow>
   f_write bs f = \<lparr>contents = a @ bs @ c, position = length a + length bs\<rparr>"
  by (cases "bs = []") (simp_all add: f_write_def)

text \<open>The byte strings of a run of writes that all succeed.\<close>

lemma write_each_Inr:
  "write_each xs f = Inr f' \<Longrightarrow> position f = length (contents f) \<Longrightarrow>
   xs = map Inr (map projr xs) \<and>
   contents f' = contents f @ concat (map projr xs) \<and>
   position f' = length (contents f')"
proof (induction xs arbitrary: f)
  case Nil then show ?case by simp
next
  case (Cons x xs)
  from Cons.prems(1) obtain bs where x: "x = Inr bs"
    and rest: "write_each xs (f_write bs f) = Inr f'"
    by (cases x) simp_all
  let ?g = "f_write bs f"
  have g: "contents ?g = contents f @ bs" "position ?g = length (contents ?g)"
    using Cons.prems(2) by (simp_all add: f_write_at_end)
  from Cons.IH [OF rest g(2)] show ?case using x g(1) by simp
qed

lemma write_each_append:
  "write_each (xs @ ys) f =
     (case write_each xs f of Inl x \<Rightarrow> Inl x | Inr g \<Rightarrow> write_each ys g)"
  by (induction xs arbitrary: f) (simp_all split: sum.splits)


lemma length_concat_le_bytes: "length (concat (map (le_bytes n) vs)) = n * length vs"
  by (induction vs) (simp_all add: length_le_bytes)

lemma length_header_bytes:
  "length (header_bytes w h t lods a b) = 56 + 4 * length lods"
  by (simp add: header_bytes_def header_prefix_def MAGIC_def length_le_bytes
      length_concat_le_bytes)

lemma write_each_all_Inr:
  "write_each xs f = Inr f' \<Longrightarrow> x \<in> set xs \<Longrightarrow> \<exists>bs. x = Inr bs"
proof (induction xs arbitrary: f)
  case Nil then show ?case by simp
next
  case (Cons y ys)
  then show ?case by (cases y) auto
qed

lemma projr_struct_pack_I: "0 \<le> v \<Longrightarrow> v < 2 ^ 32 \<Longrightarrow> projr (struct_pack_I v) = le_bytes 4 v"
  by (simp add: struct_pack_I_def)

lemma projr_struct_pack_Q: "0 \<le> v \<Longrightarrow> v < 2 ^ 64 \<Longrightarrow> projr (struct_pack_Q v) = le_bytes 8 v"
  by (simp add: struct_pack_Q_def)

lemma length_header_prefix: "length (header_prefix w h t lods) = 40 + 4 * length lods"
  by (simp add: header_prefix_def MAGIC_def length_le_bytes length_concat_le_bytes)

lemma length_entry_bytes: "length (entry_bytes e) = 36"
  by (simp add: entry_bytes_def length_le_bytes)

lemma length_concat_entry_bytes: "length (concat (map entry_bytes es)) = 36 * length es"
  by (induction es) (simp_all add: length_entry_bytes)

lemma pack_I_in_run:
  assumes "write_each xs f = Inr g" and "struct_pack_I v \<in> set xs"
  shows "0 \<le> v \<and> v < 2 ^ 32 \<and> projr (struct_pack_I v) = le_bytes 4 v"
proof -
  from write_each_all_Inr [OF assms] obtain bs where bs: "struct_pack_I v = Inr bs" by blast
  from struct_pack_I_Inr [OF bs] bs show ?thesis by simp
qed

lemma pack_Q_in_run:
  assumes "write_each xs f = Inr g" and "struct_pack_Q v \<in> set xs"
  shows "0 \<le> v \<and> v < 2 ^ 64 \<and> projr (struct_pack_Q v) = le_bytes 8 v"
proof -
  from write_each_all_Inr [OF assms] obtain bs where bs: "struct_pack_Q v = Inr bs" by blast
  from struct_pack_Q_Inr [OF bs] bs show ?thesis by simp
qed

lemma write_entry_Inr:
  assumes run: "write_each (entry_fields e) f = Inr g"
    and pos: "position f = length (contents f)"
  shows "contents g = contents f @ entry_bytes e" and "position g = length (contents g)"
proof -
  have "\<exists>bs. (case rel_offset e of None \<Rightarrow> Inl StructError | Some r \<Rightarrow> struct_pack_Q r) = Inr bs"
    by (rule write_each_all_Inr [OF run]) (simp add: entry_fields_def)
  then obtain ro where ro: "rel_offset e = Some ro"
    by (cases "rel_offset e") auto
  have q: "projr (struct_pack_Q ro) = le_bytes 8 ro"
    using pack_Q_in_run [OF run, of ro] by (simp add: entry_fields_def ro)
  have r1: "projr (struct_pack_I (e_lod e)) = le_bytes 4 (e_lod e)"
    using pack_I_in_run [OF run, of "e_lod e"] by (simp add: entry_fields_def)
  have r2: "projr (struct_pack_I (e_z e)) = le_bytes 4 (e_z e)"
    using pack_I_in_run [OF run, of "e_z e"] by (simp add: entry_fields_def)
  have r3: "projr (struct_pack_I (tile_x e)) = le_bytes 4 (tile_x e)"
    using pack_I_in_run [OF run, of "tile_x e"] by (simp add: entry_fields_def)
  have r4: "projr (struct_pack_I (tile_y e)) = le_bytes 4 (tile_y e)"
    using pack_I_in_run [OF run, of "tile_y e"] by (simp add: entry_fields_def)
  have r5: "projr (struct_pack_I (pixel_w e)) = le_bytes 4 (pixel_w e)"
    using pack_I_in_run [OF run, of "pixel_w e"] by (simp add: entry_fields_def)
  have r6: "projr (struct_pack_I (pixel_h e)) = le_bytes 4 (pixel_h e)"
    using pack_I_in_run [OF run, of "pixel_h e"] by (simp add: entry_fields_def)
  have r7: "projr (struct_pack_I (byte_length e)) = le_bytes 4 (byte_length e)"
    using pack_I_in_run [OF run, of "byte_length e"] by (simp add: entry_fields_def)
  have m: "concat (map projr (entry_fields e)) = entry_bytes e"
    by (simp add: entry_fields_def entry_bytes_def ro q r1 r2 r3 r4 r5 r6 r7)
  show "contents g = contents f @ entry_bytes e"
    using write_each_Inr [OF run pos] unfolding m by simp
  show "position g = length (contents g)"
    using write_each_Inr [OF run pos] by simp
qed

lemma write_index_Inr:
  "write_each (concat (map entry_fields es)) f = Inr g \<Longrightarrow>
   position f = length (contents f) \<Longrightarrow>
   contents g = contents f @ concat (map entry_bytes es) \<and> position g = length (contents g)"
proof (induction es arbitrary: f)
  case Nil then show ?case by simp
next
  case (Cons e es)
  from Cons.prems(1) obtain f1 where
    a: "write_each (entry_fields e) f = Inr f1" and
    b: "write_each (concat (map entry_fields es)) f1 = Inr g"
    by (auto simp: write_each_append split: sum.splits)
  from write_entry_Inr [OF a Cons.prems(2)] Cons.IH [OF b] show ?case by simp
qed

lemma write_blobs_Inr:
  "write_each (map Inr bs) f = Inr g \<Longrightarrow> position f = length (contents f) \<Longrightarrow>
   contents g = contents f @ concat bs \<and> position g = length (contents g)"
  using write_each_Inr [of "map Inr bs" f g] by (simp add: comp_def)

subsection \<open>The loops\<close>

lemma load_layers_Inr:
  "load_layers L paths dims acc = Inr (imgs, dims') \<Longrightarrow>
   (\<forall>W H. dims = Some (W, H) \<longrightarrow> (\<forall>img \<in> set acc. width img = W \<and> height img = H)) \<Longrightarrow>
   (dims = None \<longrightarrow> acc = []) \<Longrightarrow>
   length imgs = length acc + length paths \<and>
   (dims' = None \<longrightarrow> imgs = []) \<and>
   (\<forall>W H. dims' = Some (W, H) \<longrightarrow> (\<forall>img \<in> set imgs. width img = W \<and> height img = H))"
proof (induction paths arbitrary: dims acc)
  case Nil
  then show ?case by auto
next
  case (Cons path rest)
  from Cons.prems(1) obtain img0 where op: "Image_open L path = Inr img0"
    by (cases "Image_open L path") simp_all
  define img where "img = (if mode img0 \<noteq> ''RGBA'' then convert L img0 ''RGBA'' else img0)"
  show ?case
  proof (cases dims)
    case None
    with Cons.prems(1) op have rec:
      "load_layers L rest (Some (width img, height img)) (acc @ [img]) = Inr (imgs, dims')"
      by (simp add: img_def Let_def)
    have "acc = []" using None Cons.prems(3) by simp
    then have inv: "\<forall>W H. Some (width img, height img) = Some (W, H) \<longrightarrow>
        (\<forall>i \<in> set (acc @ [img]). width i = W \<and> height i = H)" by simp
    from Cons.IH [OF rec inv] show ?thesis by simp
  next
    case (Some d)
    obtain W H where d: "d = (W, H)" by (cases d)
    with Cons.prems(1) op Some have eq: "width img = W \<and> height img = H"
      and rec: "load_layers L rest dims (acc @ [img]) = Inr (imgs, dims')"
      by (simp_all add: img_def Let_def split: if_splits)
    have inv: "\<forall>W H. dims = Some (W, H) \<longrightarrow>
        (\<forall>i \<in> set (acc @ [img]). width i = W \<and> height i = H)"
      using Cons.prems(2) eq Some d by auto
    from Cons.IH [OF rec inv] Some show ?thesis by simp
  qed
qed

lemma build_downsampled_Inr:
  "build_downsampled L img s = Inr r \<Longrightarrow>
   s \<noteq> 0 \<and> width r = lod_dim (width img) s \<and> height r = lod_dim (height img) s \<and>
   mode r = mode img \<and> (s = 1 \<longrightarrow> r = img)"
  by (auto simp: build_downsampled_def resize_def lod_dim_def split: if_splits sum.splits)

lemma downsample_layers_Inr:
  "downsample_layers L imgs s zs = Inr rs \<Longrightarrow>
   rs = map (\<lambda>z. projr (build_downsampled L (imgs ! nat z) s)) zs \<and>
   (\<forall>z \<in> set zs. nat z < length imgs \<and>
      build_downsampled L (imgs ! nat z) s = Inr (projr (build_downsampled L (imgs ! nat z) s)))"
proof (induction zs arbitrary: rs)
  case Nil then show ?case by simp
next
  case (Cons z zs)
  from Cons.prems have z: "nat z < length imgs"
    by (simp split: if_splits)
  have same: "(if s = 1 then Inr (imgs ! nat z) else build_downsampled L (imgs ! nat z) s) =
        build_downsampled L (imgs ! nat z) s"
    by (simp add: build_downsampled_def)
  from Cons.prems z same obtain base bases where
    b: "build_downsampled L (imgs ! nat z) s = Inr base" and
    r: "downsample_layers L imgs s zs = Inr bases" and rs: "rs = base # bases"
    by (auto simp: Let_def split: sum.splits)
  from Cons.IH [OF r] b rs z show ?case by simp
qed


lemma upto_layers: "[0..NUM_LAYERS - 1] = [0, 1, 2, 3]"
  by (simp add: NUM_LAYERS_def upto.simps)

lemma lod_rasters_ok:
  assumes ds: "downsample_layers L imgs s [0..NUM_LAYERS - 1] = Inr (lod_rasters L imgs s)"
    and sz: "\<forall>img \<in> set imgs. width img = W \<and> height img = H"
  shows "s \<noteq> 0" and "length (lod_rasters L imgs s) = 4"
    and "\<forall>r \<in> set (lod_rasters L imgs s). width r = lod_dim W s \<and> height r = lod_dim H s"
    and "length imgs = 4 \<Longrightarrow> s = 1 \<Longrightarrow> lod_rasters L imgs s = imgs"
proof -
  from downsample_layers_Inr [OF ds]
  have b: "\<forall>z \<in> set [0..NUM_LAYERS - 1]. nat z < length imgs \<and>
      build_downsampled L (imgs ! nat z) s = Inr (projr (build_downsampled L (imgs ! nat z) s))"
    by simp
  have b0: "build_downsampled L (imgs ! 0) s = Inr (projr (build_downsampled L (imgs ! 0) s))"
    using b by (simp add: upto_layers)
  show "s \<noteq> 0" using build_downsampled_Inr [OF b0] by simp
  show "length (lod_rasters L imgs s) = 4" by (simp add: lod_rasters_def upto_layers)
  show "\<forall>r \<in> set (lod_rasters L imgs s). width r = lod_dim W s \<and> height r = lod_dim H s"
  proof
    fix r assume "r \<in> set (lod_rasters L imgs s)"
    then obtain z where z: "z \<in> set [0..NUM_LAYERS - 1]"
      and r: "r = projr (build_downsampled L (imgs ! nat z) s)"
      by (auto simp: lod_rasters_def)
    from b z have lt: "nat z < length imgs"
      and ok: "build_downsampled L (imgs ! nat z) s = Inr r" by (simp_all add: r)
    from lt sz have "width (imgs ! nat z) = W \<and> height (imgs ! nat z) = H" by simp
    with build_downsampled_Inr [OF ok] show "width r = lod_dim W s \<and> height r = lod_dim H s"
      by simp
  qed
  show "lod_rasters L imgs s = imgs" if "length imgs = 4" "s = 1"
  proof (rule nth_equalityI)
    show "length (lod_rasters L imgs s) = length imgs"
      using that by (simp add: lod_rasters_def upto_layers)
    fix i assume "i < length (lod_rasters L imgs s)"
    then have "i < 4" by (simp add: lod_rasters_def upto_layers)
    then consider "i = 0" | "i = 1" | "i = 2" | "i = 3" by linarith
    then show "lod_rasters L imgs s ! i = imgs ! i"
      using that by cases (simp_all add: lod_rasters_def upto_layers build_downsampled_def)
  qed
qed

lemma lod_dim_bounds:
  assumes "0 \<le> d" "1 \<le> s"
  shows "0 \<le> lod_dim d s" and "lod_dim d s \<le> d"
proof -
  show "0 \<le> lod_dim d s" using assms by (simp add: lod_dim_def pos_imp_zdiv_nonneg_iff)
  have q: "0 \<le> d div s" using assms by (simp add: pos_imp_zdiv_nonneg_iff)
  have "d div s * s \<le> d"
    using div_eq_iff_int [of s d "d div s"] assms(2) by simp
  moreover have "d div s * 1 \<le> d div s * s"
    using q assms(2) by (intro mult_left_mono) simp_all
  ultimately have "d div s \<le> d" by simp
  then show "lod_dim d s \<le> d" by (simp add: lod_dim_def)
qed

lemma append_tiles_eq:
  "append_tiles L s z base ts acc =
     (fst acc @ map (tile_entry L s z base) ts, snd acc @ map (tile_blob L base) ts)"
proof (induction ts arbitrary: acc)
  case Nil show ?case by simp
next
  case (Cons tle ts)
  obtain tx ty b where tle: "tle = (tx, ty, b)" by (cases tle)
  obtain png w h where enc: "encode_png_bytes L (crop L base b) = (png, w, h)"
    by (cases "encode_png_bytes L (crop L base b)")
  show ?case
    unfolding tle by (simp add: Cons.IH enc tile_entry_def tile_blob_def)
qed

lemma tile_layers_eq:
  assumes t: "0 < t" "t < 2 ^ 53"
    and dims: "\<forall>zb \<in> set zbs. 0 \<le> width (snd zb) \<and> width (snd zb) < 2 ^ 53 \<and>
                 0 \<le> height (snd zb) \<and> height (snd zb) < 2 ^ 53"
  shows "tile_layers L t s zbs acc =
     Inr (fst acc @ concat (map (layer_entries L t s) zbs),
          snd acc @ concat (map (layer_blobs L t) zbs))"
  using dims
proof (induction zbs arbitrary: acc)
  case Nil show ?case by simp
next
  case (Cons zb zbs)
  obtain z base where zb: "zb = (z, base)" by (cases zb)
  from Cons.prems have b: "0 \<le> width base" "width base < 2 ^ 53"
      "0 \<le> height base" "height base < 2 ^ 53"
    and rest: "\<forall>zb \<in> set zbs. 0 \<le> width (snd zb) \<and> width (snd zb) < 2 ^ 53 \<and>
                 0 \<le> height (snd zb) \<and> height (snd zb) < 2 ^ 53"
    by (simp_all add: zb)
  show ?case
    unfolding zb
    by (simp add: iter_tiles_grid [OF b t] Cons.IH [OF rest] append_tiles_eq
        layer_entries_def layer_blobs_def)
qed

lemma lod_tiles_eq:
  assumes ds: "downsample_layers L imgs s [0..NUM_LAYERS - 1] = Inr dl"
    and sz: "\<forall>img \<in> set imgs. width img = W \<and> height img = H"
    and W: "0 \<le> W" "W < 2 ^ 53" and H: "0 \<le> H" "H < 2 ^ 53"
    and t: "0 < t" "t < 2 ^ 53" and s: "0 \<le> s"
  shows "dl = lod_rasters L imgs s"
    and "tile_layers L t s (enumerate 0 dl) acc =
           Inr (fst acc @ lod_entries L imgs t s, snd acc @ lod_blobs L imgs t s)"
proof -
  show dl_eq: "dl = lod_rasters L imgs s"
    using downsample_layers_Inr [OF ds] by (simp add: lod_rasters_def)
  have ds': "downsample_layers L imgs s [0..NUM_LAYERS - 1] = Inr (lod_rasters L imgs s)"
    using ds dl_eq by simp
  note R = lod_rasters_ok [OF ds' sz]
  have s1: "1 \<le> s" using s R(1) by simp
  have bw: "0 \<le> lod_dim W s" "lod_dim W s < 2 ^ 53"
    using lod_dim_bounds [OF W(1) s1] W(2) by simp_all
  have bh: "0 \<le> lod_dim H s" "lod_dim H s < 2 ^ 53"
    using lod_dim_bounds [OF H(1) s1] H(2) by simp_all
  have dims: "\<forall>zb \<in> set (enumerate 0 dl). 0 \<le> width (snd zb) \<and> width (snd zb) < 2 ^ 53 \<and>
                 0 \<le> height (snd zb) \<and> height (snd zb) < 2 ^ 53"
  proof
    fix zb assume "zb \<in> set (enumerate 0 dl)"
    then have "fst zb < length dl" "dl ! fst zb = snd zb"
      by (simp_all add: in_set_enumerate_eq)
    then have "snd zb \<in> set dl" using nth_mem [of "fst zb" dl] by simp
    then have "width (snd zb) = lod_dim W s \<and> height (snd zb) = lod_dim H s"
      using R(3) dl_eq by simp
    with bw bh show "0 \<le> width (snd zb) \<and> width (snd zb) < 2 ^ 53 \<and>
                 0 \<le> height (snd zb) \<and> height (snd zb) < 2 ^ 53" by simp
  qed
  show "tile_layers L t s (enumerate 0 dl) acc =
           Inr (fst acc @ lod_entries L imgs t s, snd acc @ lod_blobs L imgs t s)"
    using tile_layers_eq [OF t dims, of L s acc]
    by (simp add: lod_entries_def lod_blobs_def dl_eq)
qed

lemma pack_lods_Inr:
  assumes run: "pack_lods L imgs t lods acc = Inr acc'"
    and sz: "\<forall>img \<in> set imgs. width img = W \<and> height img = H"
    and W: "0 \<le> W" "W < 2 ^ 53" and H: "0 \<le> H" "H < 2 ^ 53"
    and t: "0 < t" "t < 2 ^ 53" and ls: "\<forall>s \<in> set lods. 0 \<le> s"
  shows "acc' = (fst acc @ concat (map (lod_entries L imgs t) lods),
           snd acc @ concat (map (lod_blobs L imgs t) lods)) \<and>
   (\<forall>s \<in> set lods.
      downsample_layers L imgs s [0..NUM_LAYERS - 1] = Inr (lod_rasters L imgs s))"
  using run ls
proof (induction lods arbitrary: acc)
  case Nil then show ?case by simp
next
  case (Cons s rest)
  from Cons.prems(1) obtain dl where
    dl: "downsample_layers L imgs s [0..NUM_LAYERS - 1] = Inr dl"
    by (cases "downsample_layers L imgs s [0..NUM_LAYERS - 1]") simp_all
  have s0: "0 \<le> s" and ls': "\<forall>s \<in> set rest. 0 \<le> s" using Cons.prems(2) by simp_all
  note T = lod_tiles_eq [OF dl sz W H t s0]
  let ?acc1 = "(fst acc @ lod_entries L imgs t s, snd acc @ lod_blobs L imgs t s)"
  have rec: "pack_lods L imgs t rest ?acc1 = Inr acc'"
    using Cons.prems(1) dl T(2) [of acc] by simp
  from Cons.IH [OF rec ls'] dl T(1) show ?case by simp
qed


lemma assign_offsets_Inr:
  "assign_offsets es bs i c = Inr es' \<Longrightarrow>
   length es' = length es \<and>
   (\<forall>k < length es. i + k < length bs \<and>
      es' ! k = (es ! k)\<lparr>rel_offset := Some (c + (\<Sum>j<k. int (length (bs ! (i + j)))))\<rparr>)"
proof (induction es arbitrary: i c es')
  case Nil then show ?case by simp
next
  case (Cons e es)
  from Cons.prems obtain r where i: "i < length bs"
    and r: "assign_offsets es bs (Suc i) (c + int (length (bs ! i))) = Inr r"
    and es': "es' = e\<lparr>rel_offset := Some c\<rparr> # r"
    by (auto split: if_splits sum.splits)
  from Cons.IH [OF r] have len: "length r = length es"
    and nth: "\<And>k. k < length es \<Longrightarrow> Suc i + k < length bs \<and>
       r ! k = (es ! k)\<lparr>rel_offset :=
          Some (c + int (length (bs ! i)) + (\<Sum>j<k. int (length (bs ! (Suc i + j)))))\<rparr>"
    by simp_all
  show ?case
  proof (intro conjI allI impI)
    show "length es' = length (e # es)" using len es' by simp
  next
    fix k assume k: "k < length (e # es)"
    show "i + k < length bs"
      using k i nth [of "k - 1"] by (cases k) simp_all
  next
    fix k assume k: "k < length (e # es)"
    show "es' ! k = ((e # es) ! k)\<lparr>rel_offset := Some (c + (\<Sum>j<k. int (length (bs ! (i + j)))))\<rparr>"
    proof (cases k)
      case 0 then show ?thesis using es' by simp
    next
      case (Suc k')
      have "(\<Sum>j<Suc k'. int (length (bs ! (i + j)))) =
            int (length (bs ! i)) + (\<Sum>j<k'. int (length (bs ! (Suc i + j))))"
        by (subst sum.lessThan_Suc_shift) simp
      then show ?thesis using Suc k es' nth [of k'] by simp
    qed
  qed
qed

subsection \<open>The file a successful run leaves\<close>

lemma write_header_Inr:
  assumes run: "write_header w h t lods f0 = Inr f1"
    and pos: "position f0 = length (contents f0)"
  shows "0 \<le> w \<and> w < 2 ^ 32" and "0 \<le> h \<and> h < 2 ^ 32" and "0 < t \<and> t < 2 ^ 32"
    and "int (length lods) < 2 ^ 32" and "\<forall>s \<in> set lods. 0 \<le> s \<and> s < 2 ^ 32"
    and "0 \<le> ceil_quot w t \<and> ceil_quot w t < 2 ^ 32"
    and "0 \<le> ceil_quot h t \<and> ceil_quot h t < 2 ^ 32"
    and "contents f1 = contents f0 @ header_bytes w h t lods 0 0"
    and "position f1 = length (contents f1)"
proof -
  let ?xs = "[Inr MAGIC, struct_pack_I VERSION, struct_pack_I w, struct_pack_I h,
              struct_pack_I t, struct_pack_I (int (length lods))] @ map struct_pack_I lods"
  from run obtain g where g: "write_each ?xs f0 = Inr g"
    unfolding write_header_def by (cases "write_each ?xs f0") simp_all
  have el: "\<exists>bs. x = Inr bs" if "x \<in> set ?xs" for x
    using write_each_all_Inr [OF g that] .
  have w: "0 \<le> w \<and> w < 2 ^ 32" using el [of "struct_pack_I w"] struct_pack_I_Inr by auto
  have h: "0 \<le> h \<and> h < 2 ^ 32" using el [of "struct_pack_I h"] struct_pack_I_Inr by auto
  have t0: "0 \<le> t \<and> t < 2 ^ 32" using el [of "struct_pack_I t"] struct_pack_I_Inr by auto
  have n: "int (length lods) < 2 ^ 32"
  proof -
    obtain bs where "struct_pack_I (int (length lods)) = Inr bs"
      using el [of "struct_pack_I (int (length lods))"] by auto
    from struct_pack_I_Inr [OF this] show ?thesis by blast
  qed
  have ls: "\<forall>s \<in> set lods. 0 \<le> s \<and> s < 2 ^ 32"
  proof
    fix s assume "s \<in> set lods"
    then have "struct_pack_I s \<in> set ?xs" by simp
    from el [OF this] struct_pack_I_Inr show "0 \<le> s \<and> s < 2 ^ 32" by auto
  qed
  have pl: "map (projr \<circ> struct_pack_I) lods = map (le_bytes 4) lods"
    using ls by (simp add: projr_struct_pack_I)
  have gc: "contents g = contents f0 @ MAGIC @ le_bytes 4 VERSION @ le_bytes 4 w @ le_bytes 4 h
        @ le_bytes 4 t @ le_bytes 4 (int (length lods)) @ concat (map (le_bytes 4) lods)"
    and gp: "position g = length (contents g)"
    using write_each_Inr [OF g pos] w h t0 n
    by (simp_all add: pl projr_struct_pack_I VERSION_def)
  have tz: "t \<noteq> 0"
  proof
    assume "t = 0"
    with run g show False unfolding write_header_def by (simp add: ceil_truediv_zero)
  qed
  have b53: "(2 :: int) ^ 32 \<le> 2 ^ 53" by simp
  have tp: "0 < t" "t < 2 ^ 53" using t0 tz b53 by simp_all
  have cw: "ceil_truediv w t = Inr (ceil_quot w t)"
    using w b53 by (intro ceil_truediv_exact tp) simp_all
  have ch: "ceil_truediv h t = Inr (ceil_quot h t)"
    using h b53 by (intro ceil_truediv_exact tp) simp_all
  let ?ys = "[struct_pack_I (ceil_quot w t), struct_pack_I (ceil_quot h t),
              struct_pack_I NUM_LAYERS, struct_pack_Q 0, struct_pack_Q 0]"
  from run g have r2: "write_each ?ys g = Inr f1"
    unfolding write_header_def by (simp add: cw ch)
  have el2: "\<exists>bs. x = Inr bs" if "x \<in> set ?ys" for x
    using write_each_all_Inr [OF r2 that] .
  have cx: "0 \<le> ceil_quot w t \<and> ceil_quot w t < 2 ^ 32"
    using el2 [of "struct_pack_I (ceil_quot w t)"] struct_pack_I_Inr by auto
  have cy: "0 \<le> ceil_quot h t \<and> ceil_quot h t < 2 ^ 32"
    using el2 [of "struct_pack_I (ceil_quot h t)"] struct_pack_I_Inr by auto
  have fc: "contents f1 = contents g @ le_bytes 4 (ceil_quot w t) @ le_bytes 4 (ceil_quot h t)
        @ le_bytes 4 NUM_LAYERS @ le_bytes 8 0 @ le_bytes 8 0"
    and fp: "position f1 = length (contents f1)"
    using write_each_Inr [OF r2 gp] cx cy
    by (simp_all add: projr_struct_pack_I projr_struct_pack_Q NUM_LAYERS_def)
  show "0 \<le> w \<and> w < 2 ^ 32" by (rule w)
  show "0 \<le> h \<and> h < 2 ^ 32" by (rule h)
  show "0 < t \<and> t < 2 ^ 32" using t0 tz by simp
  show "int (length lods) < 2 ^ 32" by (rule n)
  show "\<forall>s \<in> set lods. 0 \<le> s \<and> s < 2 ^ 32" by (rule ls)
  show "0 \<le> ceil_quot w t \<and> ceil_quot w t < 2 ^ 32" by (rule cx)
  show "0 \<le> ceil_quot h t \<and> ceil_quot h t < 2 ^ 32" by (rule cy)
  show "contents f1 = contents f0 @ header_bytes w h t lods 0 0"
    unfolding fc gc header_bytes_def header_prefix_def by simp
  show "position f1 = length (contents f1)" by (rule fp)
qed


lemma write_atlas_Inr:
  assumes run: "write_atlas L imgs w h t lods \<lparr>contents = [], position = 0\<rparr> = Inr (r, f)"
    and sz: "\<forall>img \<in> set imgs. width img = w \<and> height img = h"
  shows "0 \<le> w \<and> w < 2 ^ 32" and "0 \<le> h \<and> h < 2 ^ 32" and "0 < t \<and> t < 2 ^ 32"
    and "\<forall>s \<in> set lods. 0 \<le> s \<and> s < 2 ^ 32"
    and "base_images r = imgs" and "src_width r = w" and "src_height r = h"
    and "header_end r = 56 + 4 * int (length lods)"
    and "index_offset r = header_end r"
    and "data_offset r = index_offset r + 36 * int (length (index_entries r))"
    and "tile_data_blobs r = concat (map (lod_blobs L imgs t) lods)"
    and "assign_offsets (concat (map (lod_entries L imgs t) lods)) (tile_data_blobs r) 0 0
           = Inr (index_entries r)"
    and "\<forall>s \<in> set lods.
           downsample_layers L imgs s [0..NUM_LAYERS - 1] = Inr (lod_rasters L imgs s)"
    and "contents f = header_bytes w h t lods (index_offset r) (data_offset r)
           @ concat (map entry_bytes (index_entries r)) @ concat (tile_data_blobs r)"
    and "\<exists>f1. write_header w h t lods \<lparr>contents = [], position = 0\<rparr> = Inr f1 \<and>
           contents f1 = header_bytes w h t lods 0 0"
    and "0 \<le> data_offset r \<and> data_offset r < 2 ^ 64"
proof -
  let ?f0 = "\<lparr>contents = [], position = 0\<rparr>"
  from run obtain f1 where hdr: "write_header w h t lods ?f0 = Inr f1"
    unfolding write_atlas_def by (cases "write_header w h t lods ?f0") simp_all
  have p0: "position ?f0 = length (contents ?f0)" by simp
  note H = write_header_Inr [OF hdr p0]
  have c1: "contents f1 = header_bytes w h t lods 0 0" using H(8) by simp
  have p1: "position f1 = length (contents f1)" by (rule H(9))
  have tz: "t \<noteq> 0" using H(3) by simp
  have tell1: "f_tell f1 = 56 + 4 * int (length lods)"
    by (simp add: f_tell_def p1 c1 length_header_bytes)
  from run hdr obtain es0 bs where pl: "pack_lods L imgs t lods ([], []) = Inr (es0, bs)"
    unfolding write_atlas_def
    by (cases "pack_lods L imgs t lods ([], [])") auto
  have b53: "(2 :: int) ^ 32 \<le> 2 ^ 53" by simp
  have w53: "0 \<le> w" "w < 2 ^ 53" and h53: "0 \<le> h" "h < 2 ^ 53"
    and t53: "0 < t" "t < 2 ^ 53" and ls0: "\<forall>s \<in> set lods. 0 \<le> s"
    using H(1,2,3,5) b53 by simp_all
  from pack_lods_Inr [OF pl sz w53 h53 t53 ls0]
  have es0: "es0 = concat (map (lod_entries L imgs t) lods)"
    and bs: "bs = concat (map (lod_blobs L imgs t) lods)"
    and ds: "\<forall>s \<in> set lods.
           downsample_layers L imgs s [0..NUM_LAYERS - 1] = Inr (lod_rasters L imgs s)"
    by simp_all
  from run hdr pl obtain es where ao: "assign_offsets es0 bs 0 0 = Inr es"
    unfolding write_atlas_def
    by (cases "assign_offsets es0 bs 0 0") (simp_all add: Let_def)
  have len: "length es = length es0" using assign_offsets_Inr [OF ao] by simp
  from run hdr pl ao obtain f2 where
    w2: "write_each (concat (map entry_fields es)) f1 = Inr f2"
    unfolding write_atlas_def
    by (cases "write_each (concat (map entry_fields es)) f1") (simp_all add: Let_def)
  from write_index_Inr [OF w2 p1]
  have c2: "contents f2 = contents f1 @ concat (map entry_bytes es)"
    and p2: "position f2 = length (contents f2)" by simp_all
  have tell2: "f_tell f2 = f_tell f1 + int (length es0) * 36"
    by (simp add: f_tell_def p2 c2 p1 length_concat_entry_bytes len)
  from run hdr pl ao w2 tell2 obtain f3 where
    w3: "write_each (map Inr bs) f2 = Inr f3"
    unfolding write_atlas_def
    by (cases "write_each (map Inr bs) f2") (simp_all add: Let_def)
  from write_blobs_Inr [OF w3 p2]
  have c3: "contents f3 = contents f2 @ concat bs" by simp
  have hnn: "\<not> f_tell f1 - 16 < 0" using tell1 by simp
  define f4 where "f4 = f3\<lparr>position := nat (f_tell f1 - 16)\<rparr>"
  have sk: "f_seek (f_tell f1 - 16) f3 = Inr f4"
    using hnn by (simp add: f_seek_def f4_def)
  let ?io = "f_tell f1" and ?do = "f_tell f1 + int (length es0) * 36"
  from run hdr pl ao w2 tell2 w3 sk obtain f5 where
    w5: "write_each [struct_pack_Q ?io, struct_pack_Q ?do] f4 = Inr f5"
    and r: "r = \<lparr>base_images = imgs, src_width = w, src_height = h, header_end = f_tell f1,
                index_entries = es, tile_data_blobs = bs,
                index_offset = ?io, data_offset = ?do\<rparr>"
    and f: "f = f5"
    unfolding write_atlas_def
    by (cases "write_each [struct_pack_Q ?io, struct_pack_Q ?do] f4") (simp_all add: Let_def)
  have qi: "projr (struct_pack_Q ?io) = le_bytes 8 ?io"
    using pack_Q_in_run [OF w5, of ?io] by simp
  have qd: "projr (struct_pack_Q ?do) = le_bytes 8 ?do"
    using pack_Q_in_run [OF w5, of ?do] by simp
  obtain bi bd where bi: "struct_pack_Q ?io = Inr bi" and bd: "struct_pack_Q ?do = Inr bd"
    using write_each_all_Inr [OF w5, of "struct_pack_Q ?io"]
      write_each_all_Inr [OF w5, of "struct_pack_Q ?do"] by auto
  have bi': "bi = le_bytes 8 ?io" using qi bi by simp
  have bd': "bd = le_bytes 8 ?do" using qd bd by simp
  let ?P = "header_prefix w h t lods"
  let ?rest = "concat (map entry_bytes es) @ concat bs"
  have c4: "contents f4 = ?P @ le_bytes 8 0 @ (le_bytes 8 0 @ ?rest)"
    by (simp add: f4_def c3 c2 c1 header_bytes_def)
  have p4: "position f4 = length ?P"
    by (simp add: f4_def tell1 length_header_prefix nat_add_distrib)
  have s1: "f_write bi f4 = \<lparr>contents = ?P @ bi @ (le_bytes 8 0 @ ?rest),
                               position = length ?P + length bi\<rparr>"
    by (rule f_write_inside [OF c4 p4]) (simp add: bi' length_le_bytes)
  have c4': "contents (f_write bi f4) = (?P @ bi) @ le_bytes 8 0 @ ?rest"
    and p4': "position (f_write bi f4) = length (?P @ bi)"
    by (simp_all add: s1)
  have s2: "f_write bd (f_write bi f4) = \<lparr>contents = (?P @ bi) @ bd @ ?rest,
                               position = length (?P @ bi) + length bd\<rparr>"
    by (rule f_write_inside [OF c4' p4']) (simp add: bd' length_le_bytes)
  have f5: "f5 = f_write bd (f_write bi f4)"
    using w5 by (simp add: bi bd)
  have c5: "contents f5 = header_bytes w h t lods ?io ?do @ ?rest"
    unfolding f5 s2 by (simp add: header_bytes_def bi' bd')
  show "0 \<le> w \<and> w < 2 ^ 32" by (rule H(1))
  show "0 \<le> h \<and> h < 2 ^ 32" by (rule H(2))
  show "0 < t \<and> t < 2 ^ 32" by (rule H(3))
  show "\<forall>s \<in> set lods. 0 \<le> s \<and> s < 2 ^ 32" by (rule H(5))
  show "base_images r = imgs" "src_width r = w" "src_height r = h" by (simp_all add: r)
  show "header_end r = 56 + 4 * int (length lods)" by (simp add: r tell1)
  show "index_offset r = header_end r" by (simp add: r)
  show "data_offset r = index_offset r + 36 * int (length (index_entries r))"
    by (simp add: r len)
  show "tile_data_blobs r = concat (map (lod_blobs L imgs t) lods)" by (simp add: r bs)
  show "assign_offsets (concat (map (lod_entries L imgs t) lods)) (tile_data_blobs r) 0 0
           = Inr (index_entries r)"
    using ao by (simp add: r es0)
  show "\<forall>s \<in> set lods.
           downsample_layers L imgs s [0..NUM_LAYERS - 1] = Inr (lod_rasters L imgs s)"
    by (rule ds)
  show "contents f = header_bytes w h t lods (index_offset r) (data_offset r)
           @ concat (map entry_bytes (index_entries r)) @ concat (tile_data_blobs r)"
    by (simp add: f c5 r)
  show "\<exists>f1. write_header w h t lods \<lparr>contents = [], position = 0\<rparr> = Inr f1 \<and>
           contents f1 = header_bytes w h t lods 0 0"
    using hdr c1 by blast
  show "0 \<le> data_offset r \<and> data_offset r < 2 ^ 64"
    using pack_Q_in_run [OF w5, of ?do] by (simp add: r)
qed

subsection \<open>What the loops produce\<close>

lemma length_raster_tiles:
  "length (raster_tiles W H t) = nat (ceil_quot W t) * nat (ceil_quot H t)"
  unfolding raster_tiles_def by (rule length_grid)

lemma set_raster_tiles:
  "set (raster_tiles W H t) =
     (\<Union>j\<in>{0..<ceil_quot H t}. (\<lambda>i. tile_of W H t i j) ` {0..<ceil_quot W t})"
  unfolding raster_tiles_def by (rule set_grid)

lemma encode_png_bytes_size:
  "encode_png_bytes L img = (save_png L (if mode img \<noteq> ''RGBA'' then convert L img ''RGBA'' else img),
                             width img, height img)"
  by (simp add: encode_png_bytes_def Let_def convert_def)

lemma tile_entry_fields:
  "e_lod (tile_entry L s z base tle) = s"
  "e_z (tile_entry L s z base tle) = z"
  "tile_x (tile_entry L s z base tle) = fst tle"
  "tile_y (tile_entry L s z base tle) = fst (snd tle)"
  "rel_offset (tile_entry L s z base tle) = None"
  "byte_length (tile_entry L s z base tle) = int (length (tile_blob L base tle))"
  by (cases tle; simp add: tile_entry_def tile_blob_def encode_png_bytes_size)+

lemma tile_entry_pixels:
  "pixel_w (tile_entry L s z base (tile_of W H t tx ty)) = min (tx * t + t) W - tx * t"
  "pixel_h (tile_entry L s z base (tile_of W H t tx ty)) = min (ty * t + t) H - ty * t"
  by (simp_all add: tile_entry_def tile_of_def encode_png_bytes_size crop_def)

lemma entry_key_tile_entry:
  "entry_key (tile_entry L s z base tle) = (s, z, fst tle, fst (snd tle))"
  by (simp add: entry_key_def tile_entry_fields)

lemma enumerate_uniform:
  assumes "\<forall>r \<in> set rs. F r = c"
  shows "concat (map (\<lambda>zb. G (fst zb) (F (snd zb))) (enumerate 0 rs)) =
         concat (map (\<lambda>z. G z c) [0..<length rs])"
proof -
  have "map (\<lambda>zb. G (fst zb) (F (snd zb))) (enumerate 0 rs) =
        map (\<lambda>z. G z c) [0..<length rs]"
  proof (rule nth_equalityI)
    show "length (map (\<lambda>zb. G (fst zb) (F (snd zb))) (enumerate 0 rs)) =
          length (map (\<lambda>z. G z c) [0..<length rs])" by simp
    fix i assume "i < length (map (\<lambda>zb. G (fst zb) (F (snd zb))) (enumerate 0 rs))"
    then have i: "i < length rs" by simp
    then have "F (rs ! i) = c" using assms by simp
    with i show "map (\<lambda>zb. G (fst zb) (F (snd zb))) (enumerate 0 rs) ! i =
        map (\<lambda>z. G z c) [0..<length rs] ! i"
      by (simp add: nth_enumerate_eq)
  qed
  then show ?thesis by simp
qed

lemma lod_entries_keys:
  assumes "length (lod_rasters L imgs s) = 4"
    and "\<forall>r \<in> set (lod_rasters L imgs s). width r = lod_dim W s \<and> height r = lod_dim H s"
  shows "map entry_key (lod_entries L imgs t s) = lod_keys W H t s"
proof -
  have u: "\<forall>r \<in> set (lod_rasters L imgs s). (width r, height r) = (lod_dim W s, lod_dim H s)"
    using assms(2) by simp
  have "map entry_key (lod_entries L imgs t s) =
        concat (map (\<lambda>zb. (\<lambda>z d. map (\<lambda>tle. (s, int z, fst tle, fst (snd tle)))
                                     (raster_tiles (fst d) (snd d) t))
                          (fst zb) ((\<lambda>r. (width r, height r)) (snd zb)))
                    (enumerate 0 (lod_rasters L imgs s)))"
    by (simp add: lod_entries_def layer_entries_def map_concat comp_def entry_key_tile_entry)
  also have "\<dots> = concat (map (\<lambda>z. map (\<lambda>tle. (s, int z, fst tle, fst (snd tle)))
                                     (raster_tiles (lod_dim W s) (lod_dim H s) t))
                    [0..<length (lod_rasters L imgs s)])"
    using enumerate_uniform [OF u, of "\<lambda>z d. map (\<lambda>tle. (s, int z, fst tle, fst (snd tle)))
                                     (raster_tiles (fst d) (snd d) t)"]
    by simp
  finally show ?thesis by (simp add: lod_keys_def assms(1))
qed

lemma length_lod_keys: "length (lod_keys W H t s) = 4 * tiles_per_layer W H t s"
  by (simp add: lod_keys_def length_concat comp_def length_raster_tiles tiles_per_layer_def
      sum_list_triv)

lemma lod_entries_lengths:
  "map byte_length (lod_entries L imgs t s) = map (\<lambda>b. int (length b)) (lod_blobs L imgs t s)"
  by (simp add: lod_entries_def lod_blobs_def layer_entries_def layer_blobs_def map_concat
      comp_def tile_entry_fields)

lemma lod_entries_member:
  assumes e: "e \<in> set (lod_entries L imgs t s)"
    and "\<forall>r \<in> set (lod_rasters L imgs s). width r = lod_dim W s \<and> height r = lod_dim H s"
  shows "\<exists>z base tx ty. z < length (lod_rasters L imgs s) \<and>
           0 \<le> tx \<and> tx < ceil_quot (lod_dim W s) t \<and>
           0 \<le> ty \<and> ty < ceil_quot (lod_dim H s) t \<and>
           e = tile_entry L s (int z) base (tile_of (lod_dim W s) (lod_dim H s) t tx ty)"
proof -
  from e obtain zb where zb: "zb \<in> set (enumerate 0 (lod_rasters L imgs s))"
    and el: "e \<in> set (layer_entries L t s zb)"
    by (auto simp: lod_entries_def)
  obtain z base where zbe: "zb = (z, base)" by (cases zb)
  from zb zbe have z: "z < length (lod_rasters L imgs s)" and base: "base \<in> set (lod_rasters L imgs s)"
    by (auto simp: in_set_enumerate_eq)
  from base assms(2) have d: "width base = lod_dim W s" "height base = lod_dim H s" by simp_all
  from el obtain tle where tle: "tle \<in> set (raster_tiles (lod_dim W s) (lod_dim H s) t)"
    and ee: "e = tile_entry L s (int z) base tle"
    by (auto simp: layer_entries_def zbe d)
  from tle obtain tx ty where "tx \<in> {0..<ceil_quot (lod_dim W s) t}"
    "ty \<in> {0..<ceil_quot (lod_dim H s) t}" "tle = tile_of (lod_dim W s) (lod_dim H s) t tx ty"
    unfolding set_raster_tiles by auto
  with z ee show ?thesis by auto
qed

subsection \<open>A successful call\<close>

lemma pack_atlas_3d_Inr:
  assumes run: "pack_atlas_3d L paths t lods = (Inr r, out)"
  shows "int (length paths) = NUM_LAYERS"
    and "length (base_images r) = 4"
    and "\<forall>img \<in> set (base_images r). width img = src_width r \<and> height img = src_height r"
    and "\<exists>f. write_atlas L (base_images r) (src_width r) (src_height r) t lods
                \<lparr>contents = [], position = 0\<rparr> = Inr (r, f) \<and> out = Some (contents f)"
proof -
  show len: "int (length paths) = NUM_LAYERS"
    using run by (auto simp: pack_atlas_3d_def split: if_splits)
  from run len obtain imgs dims where ll: "load_layers L paths None [] = Inr (imgs, dims)"
    by (cases "load_layers L paths None []") (auto simp: pack_atlas_3d_def)
  from run len ll obtain W H where dims: "dims = Some (W, H)"
    by (cases dims) (auto simp: pack_atlas_3d_def)
  from load_layers_Inr [OF ll] dims have li: "length imgs = length paths"
    and sz: "\<forall>img \<in> set imgs. width img = W \<and> height img = H" by simp_all
  from run len ll dims obtain f where
    wa: "write_atlas L imgs W H t lods \<lparr>contents = [], position = 0\<rparr> = Inr (r, f)"
    and out: "out = Some (contents f)"
    by (cases "write_atlas L imgs W H t lods \<lparr>contents = [], position = 0\<rparr>")
       (auto simp: pack_atlas_3d_def)
  note A = write_atlas_Inr [OF wa sz]
  show "length (base_images r) = 4" using A(5) li len by (simp add: NUM_LAYERS_def)
  show "\<forall>img \<in> set (base_images r). width img = src_width r \<and> height img = src_height r"
    using A(5,6,7) sz by simp
  show "\<exists>f. write_atlas L (base_images r) (src_width r) (src_height r) t lods
                \<lparr>contents = [], position = 0\<rparr> = Inr (r, f) \<and> out = Some (contents f)"
    using wa out A(5,6,7) by auto
qed

text \<open>The facts of a successful run, stated on its result.\<close>

lemma pack_run_bounds:
  assumes run: "pack_atlas_3d L paths t lods = (Inr r, out)"
  shows "0 \<le> src_width r \<and> src_width r < 2 ^ 32"
    and "0 \<le> src_height r \<and> src_height r < 2 ^ 32"
    and "0 < t \<and> t < 2 ^ 32"
    and "\<forall>s \<in> set lods. 1 \<le> s \<and> s < 2 ^ 32"
    and "\<forall>s \<in> set lods.
           downsample_layers L (base_images r) s [0..NUM_LAYERS - 1] =
             Inr (lod_rasters L (base_images r) s) \<and>
           length (lod_rasters L (base_images r) s) = 4 \<and>
           (\<forall>b \<in> set (lod_rasters L (base_images r) s).
              width b = lod_dim (src_width r) s \<and> height b = lod_dim (src_height r) s) \<and>
           (s = 1 \<longrightarrow> lod_rasters L (base_images r) s = base_images r)"
proof -
  from pack_atlas_3d_Inr(4) [OF run] obtain f where
    wa: "write_atlas L (base_images r) (src_width r) (src_height r) t lods
                \<lparr>contents = [], position = 0\<rparr> = Inr (r, f)" by blast
  note sz = pack_atlas_3d_Inr(3) [OF run]
  note A = write_atlas_Inr [OF wa sz]
  note l4 = pack_atlas_3d_Inr(2) [OF run]
  show "0 \<le> src_width r \<and> src_width r < 2 ^ 32" by (rule A(1))
  show "0 \<le> src_height r \<and> src_height r < 2 ^ 32" by (rule A(2))
  show "0 < t \<and> t < 2 ^ 32" by (rule A(3))
  have ds: "downsample_layers L (base_images r) s [0..NUM_LAYERS - 1] =
             Inr (lod_rasters L (base_images r) s)" if "s \<in> set lods" for s
    using A(13) that by simp
  show "\<forall>s \<in> set lods. 1 \<le> s \<and> s < 2 ^ 32"
  proof
    fix s assume s: "s \<in> set lods"
    from lod_rasters_ok(1) [OF ds [OF s] sz] A(4) s show "1 \<le> s \<and> s < 2 ^ 32" by force
  qed
  show "\<forall>s \<in> set lods.
           downsample_layers L (base_images r) s [0..NUM_LAYERS - 1] =
             Inr (lod_rasters L (base_images r) s) \<and>
           length (lod_rasters L (base_images r) s) = 4 \<and>
           (\<forall>b \<in> set (lod_rasters L (base_images r) s).
              width b = lod_dim (src_width r) s \<and> height b = lod_dim (src_height r) s) \<and>
           (s = 1 \<longrightarrow> lod_rasters L (base_images r) s = base_images r)"
  proof
    fix s assume s: "s \<in> set lods"
    note R = lod_rasters_ok [OF ds [OF s] sz]
    show "downsample_layers L (base_images r) s [0..NUM_LAYERS - 1] =
             Inr (lod_rasters L (base_images r) s) \<and>
           length (lod_rasters L (base_images r) s) = 4 \<and>
           (\<forall>b \<in> set (lod_rasters L (base_images r) s).
              width b = lod_dim (src_width r) s \<and> height b = lod_dim (src_height r) s) \<and>
           (s = 1 \<longrightarrow> lod_rasters L (base_images r) s = base_images r)"
      using ds [OF s] R(2) R(3) R(4) [OF l4] by blast
  qed
qed

lemma pack_run_layout:
  assumes run: "pack_atlas_3d L paths t lods = (Inr r, out)"
  shows "header_end r = 56 + 4 * int (length lods)"
    and "index_offset r = header_end r"
    and "data_offset r = index_offset r + 36 * int (length (index_entries r))"
    and "out = Some (header_bytes (src_width r) (src_height r) t lods
                       (index_offset r) (data_offset r)
                     @ concat (map entry_bytes (index_entries r))
                     @ concat (tile_data_blobs r))"
proof -
  from pack_atlas_3d_Inr(4) [OF run] obtain f where
    wa: "write_atlas L (base_images r) (src_width r) (src_height r) t lods
                \<lparr>contents = [], position = 0\<rparr> = Inr (r, f)"
    and out: "out = Some (contents f)" by blast
  note A = write_atlas_Inr [OF wa pack_atlas_3d_Inr(3) [OF run]]
  show "header_end r = 56 + 4 * int (length lods)" by (rule A(8))
  show "index_offset r = header_end r" by (rule A(9))
  show "data_offset r = index_offset r + 36 * int (length (index_entries r))" by (rule A(10))
  show "out = Some (header_bytes (src_width r) (src_height r) t lods
                       (index_offset r) (data_offset r)
                     @ concat (map entry_bytes (index_entries r))
                     @ concat (tile_data_blobs r))"
    using out A(14) by simp
qed

lemma pack_run_entries:
  assumes run: "pack_atlas_3d L paths t lods = (Inr r, out)"
  shows "length (index_entries r) = length (tile_data_blobs r)"
    and "length (index_entries r) =
           length (concat (map (lod_entries L (base_images r) t) lods))"
    and "\<forall>k < length (index_entries r).
           index_entries r ! k =
             (concat (map (lod_entries L (base_images r) t) lods) ! k)
               \<lparr>rel_offset := Some (\<Sum>j<k. int (length (tile_data_blobs r ! j)))\<rparr>"
    and "\<forall>k < length (index_entries r).
           byte_length (index_entries r ! k) = int (length (tile_data_blobs r ! k))"
proof -
  from pack_atlas_3d_Inr(4) [OF run] obtain f where
    wa: "write_atlas L (base_images r) (src_width r) (src_height r) t lods
                \<lparr>contents = [], position = 0\<rparr> = Inr (r, f)" by blast
  note A = write_atlas_Inr [OF wa pack_atlas_3d_Inr(3) [OF run]]
  let ?es0 = "concat (map (lod_entries L (base_images r) t) lods)"
  have bl: "map byte_length ?es0 = map (\<lambda>b. int (length b)) (tile_data_blobs r)"
    unfolding A(11) by (induction lods) (simp_all add: lod_entries_lengths)
  then have l0: "length ?es0 = length (tile_data_blobs r)"
    by (metis length_map)
  from assign_offsets_Inr [OF A(12)]
  have len: "length (index_entries r) = length ?es0"
    and nth: "\<And>k. k < length ?es0 \<Longrightarrow> index_entries r ! k =
        (?es0 ! k)\<lparr>rel_offset := Some (\<Sum>j<k. int (length (tile_data_blobs r ! j)))\<rparr>"
    by simp_all
  show "length (index_entries r) = length (tile_data_blobs r)" using len l0 by simp
  show "length (index_entries r) = length ?es0" by (rule len)
  show "\<forall>k < length (index_entries r). index_entries r ! k =
        (?es0 ! k)\<lparr>rel_offset := Some (\<Sum>j<k. int (length (tile_data_blobs r ! j)))\<rparr>"
    using nth len by simp
  show "\<forall>k < length (index_entries r).
           byte_length (index_entries r ! k) = int (length (tile_data_blobs r ! k))"
  proof (intro allI impI)
    fix k assume k: "k < length (index_entries r)"
    then have k0: "k < length ?es0" using len by simp
    have "byte_length (?es0 ! k) = map byte_length ?es0 ! k" using k0 by simp
    also have "\<dots> = int (length (tile_data_blobs r ! k))"
      unfolding bl using k0 l0 by simp
    finally show "byte_length (index_entries r ! k) = int (length (tile_data_blobs r ! k))"
      using nth [OF k0] by simp
  qed
qed

lemma pack_run_keys:
  assumes run: "pack_atlas_3d L paths t lods = (Inr r, out)"
  shows "map entry_key (index_entries r) =
         concat (map (lod_keys (src_width r) (src_height r) t) lods)"
proof -
  let ?es0 = "concat (map (lod_entries L (base_images r) t) lods)"
  note E = pack_run_entries [OF run]
  note B = pack_run_bounds(5) [OF run]
  have "map entry_key (index_entries r) = map entry_key ?es0"
  proof (rule nth_equalityI)
    show "length (map entry_key (index_entries r)) = length (map entry_key ?es0)"
      using E(2) by simp
    fix k assume "k < length (map entry_key (index_entries r))"
    then have k: "k < length (index_entries r)" by simp
    with E(3) have "index_entries r ! k =
        (?es0 ! k)\<lparr>rel_offset := Some (\<Sum>j<k. int (length (tile_data_blobs r ! j)))\<rparr>"
      by blast
    then show "map entry_key (index_entries r) ! k = map entry_key ?es0 ! k"
      using k E(2) by (simp add: entry_key_def)
  qed
  also have "\<dots> = concat (map (\<lambda>s. map entry_key (lod_entries L (base_images r) t s)) lods)"
    by (simp add: map_concat comp_def)
  also have "\<dots> = concat (map (lod_keys (src_width r) (src_height r) t) lods)"
  proof -
    have "map (\<lambda>s. map entry_key (lod_entries L (base_images r) t s)) lods =
          map (lod_keys (src_width r) (src_height r) t) lods"
    proof (rule map_cong [OF refl])
      fix s assume "s \<in> set lods"
      with B show "map entry_key (lod_entries L (base_images r) t s) =
          lod_keys (src_width r) (src_height r) t s"
        by (intro lod_entries_keys) blast+
    qed
    then show ?thesis by (rule arg_cong)
  qed
  finally show ?thesis .
qed

subsection \<open>Inputs on which the call succeeds\<close>

lemma length_production_keys:
  "length (concat (map (lod_keys W H t) lods)) = num_entries W H t lods"
  by (simp add: length_concat comp_def length_lod_keys num_entries_def)

lemma write_each_total:
  "\<forall>x \<in> set xs. \<exists>bs. x = Inr bs \<Longrightarrow> \<exists>g. write_each xs f = Inr g"
proof (induction xs arbitrary: f)
  case Nil show ?case by simp
next
  case (Cons x xs)
  then obtain bs where "x = Inr bs" by auto
  with Cons show ?case by simp
qed

lemma struct_pack_I_total: "0 \<le> v \<Longrightarrow> v < 2 ^ 32 \<Longrightarrow> \<exists>bs. struct_pack_I v = Inr bs"
  by (simp add: struct_pack_I_def)

lemma struct_pack_Q_total: "0 \<le> v \<Longrightarrow> v < 2 ^ 64 \<Longrightarrow> \<exists>bs. struct_pack_Q v = Inr bs"
  by (simp add: struct_pack_Q_def)

lemma load_layers_total:
  assumes "\<forall>p \<in> set paths. \<exists>img. Image_open L p = Inr img \<and> width img = W \<and> height img = H"
    and "dims = None \<or> dims = Some (W, H)"
  shows "\<exists>imgs. load_layers L paths dims acc =
           Inr (imgs, if paths = [] then dims else Some (W, H))"
  using assms
proof (induction paths arbitrary: dims acc)
  case Nil show ?case by simp
next
  case (Cons p ps)
  from Cons.prems(1) obtain img0 where op: "Image_open L p = Inr img0"
    and d: "width img0 = W" "height img0 = H" by auto
  let ?img = "if mode img0 \<noteq> ''RGBA'' then convert L img0 ''RGBA'' else img0"
  have d': "width ?img = W" "height ?img = H" using d by (simp_all add: convert_def)
  have ps: "\<forall>p \<in> set ps. \<exists>img. Image_open L p = Inr img \<and> width img = W \<and> height img = H"
    using Cons.prems(1) by simp
  from Cons.IH [OF ps, of "Some (W, H)" "acc @ [?img]"]
  obtain imgs where r: "load_layers L ps (Some (W, H)) (acc @ [?img]) = Inr (imgs, Some (W, H))"
    by auto
  show ?case
    using Cons.prems(2) op d' r by (auto simp: Let_def)
qed

lemma ceil_quot_le:
  assumes "0 < t" "0 \<le> a"
  shows "ceil_quot a t \<le> a"
proof (cases "ceil_quot a t \<le> 0")
  case True with assms(2) show ?thesis by simp
next
  case False
  then have c: "0 \<le> ceil_quot a t - 1" by simp
  have "(ceil_quot a t - 1) * 1 \<le> (ceil_quot a t - 1) * t"
    using c assms(1) by (intro mult_left_mono) simp_all
  moreover have "(ceil_quot a t - 1) * t < a" by (rule ceil_quot_bounds(1) [OF assms(1)])
  ultimately show ?thesis by simp
qed

lemma write_header_total:
  assumes "0 \<le> w" "w < 2 ^ 32" "0 \<le> h" "h < 2 ^ 32" "0 < t" "t < 2 ^ 32"
    and "int (length lods) < 2 ^ 32" and "\<forall>s \<in> set lods. 0 \<le> s \<and> s < 2 ^ 32"
  shows "\<exists>f1. write_header w h t lods f = Inr f1"
proof -
  let ?xs = "[Inr MAGIC, struct_pack_I VERSION, struct_pack_I w, struct_pack_I h,
              struct_pack_I t, struct_pack_I (int (length lods))] @ map struct_pack_I lods"
  have "\<forall>x \<in> set ?xs. \<exists>bs. x = Inr bs"
    using assms by (auto simp: struct_pack_I_def VERSION_def)
  from write_each_total [OF this] obtain g where g: "write_each ?xs f = Inr g" by blast
  have cx: "0 \<le> ceil_quot w t" "ceil_quot w t < 2 ^ 32"
    using ceil_quot_nonneg [of t w] ceil_quot_le [of t w] assms by simp_all
  have cy: "0 \<le> ceil_quot h t" "ceil_quot h t < 2 ^ 32"
    using ceil_quot_nonneg [of t h] ceil_quot_le [of t h] assms by simp_all
  let ?ys = "[struct_pack_I (ceil_quot w t), struct_pack_I (ceil_quot h t),
              struct_pack_I NUM_LAYERS, struct_pack_Q 0, struct_pack_Q 0]"
  have "\<forall>x \<in> set ?ys. \<exists>bs. x = Inr bs"
    using cx cy by (simp add: struct_pack_I_def struct_pack_Q_def NUM_LAYERS_def)
  from write_each_total [OF this] obtain f1 where "write_each ?ys g = Inr f1" by blast
  moreover have b53: "(2 :: int) ^ 32 \<le> 2 ^ 53" by simp
  have "ceil_truediv w t = Inr (ceil_quot w t)" "ceil_truediv h t = Inr (ceil_quot h t)"
    using assms b53 by (intro ceil_truediv_exact; simp)+
  ultimately show ?thesis using g by (simp add: write_header_def)
qed

lemma downsample_layers_total:
  assumes "\<forall>z \<in> set zs. nat z < length imgs \<and>
             (\<exists>b. build_downsampled L (imgs ! nat z) s = Inr b)"
  shows "\<exists>rs. downsample_layers L imgs s zs = Inr rs"
  using assms
proof (induction zs)
  case Nil show ?case by simp
next
  case (Cons z zs)
  then obtain b rs where z: "nat z < length imgs"
    and b: "build_downsampled L (imgs ! nat z) s = Inr b"
    and rs: "downsample_layers L imgs s zs = Inr rs" by auto
  have same: "(if s = 1 then Inr (imgs ! nat z) else build_downsampled L (imgs ! nat z) s) =
        build_downsampled L (imgs ! nat z) s"
    by (simp add: build_downsampled_def)
  show ?case using z b rs same by (simp add: Let_def)
qed

lemma pack_lods_total:
  assumes sz: "\<forall>img \<in> set imgs. width img = W \<and> height img = H"
    and W: "0 \<le> W" "W < 2 ^ 53" and H: "0 \<le> H" "H < 2 ^ 53"
    and t: "0 < t" "t < 2 ^ 53" and ls: "\<forall>s \<in> set lods. 0 \<le> s"
    and ds: "\<forall>s \<in> set lods. \<exists>rs. downsample_layers L imgs s [0..NUM_LAYERS - 1] = Inr rs"
  shows "\<exists>acc'. pack_lods L imgs t lods acc = Inr acc'"
  using ls ds
proof (induction lods arbitrary: acc)
  case Nil show ?case by simp
next
  case (Cons s rest)
  then obtain rs where rs: "downsample_layers L imgs s [0..NUM_LAYERS - 1] = Inr rs" by auto
  have s0: "0 \<le> s" and ls': "\<forall>s \<in> set rest. 0 \<le> s" using Cons.prems(1) by simp_all
  have "\<forall>s \<in> set rest. \<exists>rs. downsample_layers L imgs s [0..NUM_LAYERS - 1] = Inr rs"
    using Cons.prems(2) by simp
  from Cons.IH [OF ls' this] rs lod_tiles_eq(2) [OF rs sz W H t s0] show ?case
    by simp
qed

lemma assign_offsets_total:
  "i + length es \<le> length bs \<Longrightarrow> \<exists>es'. assign_offsets es bs i c = Inr es'"
proof (induction es arbitrary: i c)
  case Nil show ?case by simp
next
  case (Cons e es)
  then have "Suc i + length es \<le> length bs" by simp
  from Cons.IH [OF this, of "c + int (length (bs ! i))"] Cons.prems show ?case by auto
qed


lemma blob_is_png:
  assumes "b \<in> set (concat (map (lod_blobs L imgs t) lods))"
  shows "\<exists>img. b = save_png L img"
proof -
  from assms obtain s zb tle where "b = tile_blob L (snd zb) tle"
    by (auto simp: lod_blobs_def layer_blobs_def)
  then show ?thesis by (auto simp: tile_blob_def encode_png_bytes_size)
qed

lemma sum_lengths_bound:
  assumes "\<forall>j < k. int (length (bs ! j)) < c"
  shows "(\<Sum>j<k. int (length (bs ! j))) \<le> int k * c"
  using assms
proof (induction k)
  case 0 show ?case by simp
next
  case (Suc k)
  then have "(\<Sum>j<k. int (length (bs ! j))) \<le> int k * c" by simp
  moreover have "int (length (bs ! k)) < c" using Suc.prems by simp
  ultimately show ?case by (simp add: algebra_simps)
qed

lemma entry_fields_total:
  assumes "0 \<le> e_lod e \<and> e_lod e < 2 ^ 32" "0 \<le> e_z e \<and> e_z e < 2 ^ 32"
    "0 \<le> tile_x e \<and> tile_x e < 2 ^ 32" "0 \<le> tile_y e \<and> tile_y e < 2 ^ 32"
    "0 \<le> pixel_w e \<and> pixel_w e < 2 ^ 32" "0 \<le> pixel_h e \<and> pixel_h e < 2 ^ 32"
    "\<exists>ro. rel_offset e = Some ro \<and> 0 \<le> ro \<and> ro < 2 ^ 64"
    "0 \<le> byte_length e \<and> byte_length e < 2 ^ 32"
  shows "\<forall>x \<in> set (entry_fields e). \<exists>bs. x = Inr bs"
  using assms by (auto simp: entry_fields_def struct_pack_I_def struct_pack_Q_def)

lemma tile_extent:
  assumes "0 < t" "0 \<le> tx" "tx < ceil_quot W t"
  shows "0 \<le> min (tx * t + t) W - tx * t" and "min (tx * t + t) W - tx * t \<le> t"
proof -
  have "tx * t \<le> (ceil_quot W t - 1) * t" using assms by (simp add: mult_right_mono)
  then have "tx * t < W" using ceil_quot_bounds(1) [OF assms(1), of W] by linarith
  then show "0 \<le> min (tx * t + t) W - tx * t" using assms(1) by simp
  show "min (tx * t + t) W - tx * t \<le> t" by simp
qed

lemma write_atlas_total:
  assumes li: "length imgs = 4"
    and sz: "\<forall>img \<in> set imgs. width img = W \<and> height img = H"
    and W: "0 \<le> W" "W < 2 ^ 32" and H: "0 \<le> H" "H < 2 ^ 32"
    and t: "0 < t" "t < 2 ^ 32"
    and nl: "int (length lods) < 2 ^ 32"
    and ls: "\<forall>s \<in> set lods. 1 \<le> s \<and> s < 2 ^ 32"
    and rs: "\<forall>s \<in> set lods. s \<noteq> 1 \<longrightarrow> (\<forall>img. \<exists>p. resize_px L (W div s, H div s) img = Inr p)"
    and enc: "\<forall>img. int (length (save_png L img)) < 2 ^ 32"
    and n: "int (num_entries W H t lods) < 2 ^ 31"
  shows "\<exists>r f. write_atlas L imgs W H t lods \<lparr>contents = [], position = 0\<rparr> = Inr (r, f)"
proof -
  let ?f0 = "\<lparr>contents = [], position = 0\<rparr>"
  have ls0: "\<forall>s \<in> set lods. 0 \<le> s \<and> s < 2 ^ 32" using ls by force
  from write_header_total [OF W H t nl ls0] obtain f1 where
    hdr: "write_header W H t lods ?f0 = Inr f1" by blast
  have p0: "position ?f0 = length (contents ?f0)" by simp
  note Hd = write_header_Inr [OF hdr p0]
  have c1: "contents f1 = header_bytes W H t lods 0 0" using Hd(8) by simp
  have p1: "position f1 = length (contents f1)" by (rule Hd(9))
  have tell1: "f_tell f1 = 56 + 4 * int (length lods)"
    by (simp add: f_tell_def p1 c1 length_header_bytes)
  have tz: "t \<noteq> 0" using t by simp
  \<comment> \<open>the rasters of every LOD\<close>
  have ds: "\<exists>rs. downsample_layers L imgs s [0..NUM_LAYERS - 1] = Inr rs" if s: "s \<in> set lods" for s
  proof (rule downsample_layers_total, rule ballI)
    fix z assume "z \<in> set [0..NUM_LAYERS - 1]"
    then have z: "nat z < length imgs" using li by (auto simp: upto_layers)
    then have d: "width (imgs ! nat z) = W" "height (imgs ! nat z) = H" using sz by simp_all
    have "\<exists>b. build_downsampled L (imgs ! nat z) s = Inr b"
    proof (cases "s = 1")
      case True then show ?thesis by (simp add: build_downsampled_def)
    next
      case False
      with rs s obtain p where "resize_px L (W div s, H div s) (imgs ! nat z) = Inr p" by blast
      with False ls s show ?thesis
        by (auto simp: build_downsampled_def resize_def d)
    qed
    with z show "nat z < length imgs \<and> (\<exists>b. build_downsampled L (imgs ! nat z) s = Inr b)"
      by simp
  qed
  have b53: "(2 :: int) ^ 32 \<le> 2 ^ 53" by simp
  have W53: "W < 2 ^ 53" and H53: "H < 2 ^ 53" and t53: "t < 2 ^ 53"
    using W(2) H(2) t(2) b53 by simp_all
  have lsn: "\<forall>s \<in> set lods. 0 \<le> s" using ls by force
  have dsa: "\<forall>s \<in> set lods. \<exists>rs. downsample_layers L imgs s [0..NUM_LAYERS - 1] = Inr rs"
    using ds by blast
  from pack_lods_total [OF sz W(1) W53 H(1) H53 t(1) t53 lsn dsa, of "([], [])"]
  obtain acc' where pl0: "pack_lods L imgs t lods ([], []) = Inr acc'" by blast
  let ?es0 = "concat (map (lod_entries L imgs t) lods)"
  let ?bs = "concat (map (lod_blobs L imgs t) lods)"
  from pack_lods_Inr [OF pl0 sz W(1) W53 H(1) H53 t(1) t53 lsn] have pl: "pack_lods L imgs t lods ([], []) = Inr (?es0, ?bs)"
    and dsr: "\<forall>s \<in> set lods.
        downsample_layers L imgs s [0..NUM_LAYERS - 1] = Inr (lod_rasters L imgs s)"
    using pl0 by simp_all
  have rast: "length (lod_rasters L imgs s) = 4 \<and>
      (\<forall>b \<in> set (lod_rasters L imgs s). width b = lod_dim W s \<and> height b = lod_dim H s)"
    if "s \<in> set lods" for s
    using lod_rasters_ok(2,3) [OF _ sz, of L s] dsr that by blast
  have bl: "map byte_length ?es0 = map (\<lambda>b. int (length b)) ?bs"
    by (induction lods) (simp_all add: lod_entries_lengths)
  then have l0: "length ?es0 = length ?bs" by (metis length_map)
  have keys: "map entry_key ?es0 = concat (map (lod_keys W H t) lods)"
  proof -
    have "map (\<lambda>s. map entry_key (lod_entries L imgs t s)) lods = map (lod_keys W H t) lods"
      using rast by (intro map_cong [OF refl] lod_entries_keys) blast+
    then have "concat (map (\<lambda>s. map entry_key (lod_entries L imgs t s)) lods) =
        concat (map (lod_keys W H t) lods)" by (rule arg_cong)
    then show ?thesis by (simp add: map_concat comp_def)
  qed
  have count: "length ?es0 = num_entries W H t lods"
    using arg_cong [OF keys, of length] by (simp only: length_map length_production_keys)
  \<comment> \<open>the offsets\<close>
  from assign_offsets_total [of 0 ?es0 ?bs 0] l0
  obtain es where ao: "assign_offsets ?es0 ?bs 0 0 = Inr es" by auto
  from assign_offsets_Inr [OF ao] have len: "length es = length ?es0"
    and nth: "\<And>k. k < length ?es0 \<Longrightarrow>
        es ! k = (?es0 ! k)\<lparr>rel_offset := Some (\<Sum>j<k. int (length (?bs ! j)))\<rparr>"
    by simp_all
  \<comment> \<open>every field of every entry packs\<close>
  have blob: "int (length (?bs ! j)) < 2 ^ 32" if "j < length ?bs" for j
  proof -
    from that have "?bs ! j \<in> set ?bs" by (rule nth_mem)
    from blob_is_png [OF this] enc show ?thesis by auto
  qed
  have fields: "\<forall>x \<in> set (entry_fields e). \<exists>bs. x = Inr bs" if e: "e \<in> set es" for e
  proof -
    from e obtain k where k: "k < length ?es0" and ek: "e = es ! k"
      using len by (auto simp: in_set_conv_nth)
    let ?e0 = "?es0 ! k"
    let ?ro = "\<Sum>j<k. int (length (?bs ! j))"
    have e0: "e = ?e0\<lparr>rel_offset := Some ?ro\<rparr>" using nth [OF k] ek by simp
    have "?e0 \<in> set ?es0" using k by (rule nth_mem)
    then obtain s where s: "s \<in> set lods" and m: "?e0 \<in> set (lod_entries L imgs t s)" by auto
    from rast [OF s] have rd: "\<forall>b \<in> set (lod_rasters L imgs s).
        width b = lod_dim W s \<and> height b = lod_dim H s"
      and r4: "length (lod_rasters L imgs s) = 4" by simp_all
    from lod_entries_member [OF m rd] obtain z base tx ty where
      z: "z < length (lod_rasters L imgs s)" and
      tx: "0 \<le> tx" "tx < ceil_quot (lod_dim W s) t" and
      ty: "0 \<le> ty" "ty < ceil_quot (lod_dim H s) t" and
      te: "?e0 = tile_entry L s (int z) base (tile_of (lod_dim W s) (lod_dim H s) t tx ty)"
      by blast
    have s1: "1 \<le> s" "s < 2 ^ 32" using ls s by simp_all
    have dW: "0 \<le> lod_dim W s" "lod_dim W s \<le> W" using lod_dim_bounds [OF W(1) s1(1)] .
    have dH: "0 \<le> lod_dim H s" "lod_dim H s \<le> H" using lod_dim_bounds [OF H(1) s1(1)] .
    have nx: "ceil_quot (lod_dim W s) t < 2 ^ 32"
      using ceil_quot_le [OF t(1) dW(1)] dW(2) W(2) by linarith
    have ny: "ceil_quot (lod_dim H s) t < 2 ^ 32"
      using ceil_quot_le [OF t(1) dH(1)] dH(2) H(2) by linarith
    have ro0: "0 \<le> ?ro" by (simp add: sum_nonneg)
    have "?ro \<le> int k * 2 ^ 32"
      using blob k l0 by (intro sum_lengths_bound) simp
    also have "\<dots> \<le> 2 ^ 31 * 2 ^ 32"
      using k count n by (intro mult_right_mono) simp_all
    finally have ro1: "?ro < 2 ^ 64" by simp
    have bk: "byte_length ?e0 = int (length (?bs ! k))"
    proof -
      have "byte_length ?e0 = map byte_length ?es0 ! k" using k by simp
      also have "\<dots> = int (length (?bs ! k))" unfolding bl using k l0 by simp
      finally show ?thesis .
    qed
    have pw: "0 \<le> pixel_w ?e0 \<and> pixel_w ?e0 < 2 ^ 32"
      using tile_extent [OF t(1) tx] t(2) unfolding te tile_entry_pixels by linarith
    have ph: "0 \<le> pixel_h ?e0 \<and> pixel_h ?e0 < 2 ^ 32"
      using tile_extent [OF t(1) ty] t(2) unfolding te tile_entry_pixels by linarith
    show ?thesis
    proof (rule entry_fields_total)
      show "0 \<le> e_lod e \<and> e_lod e < 2 ^ 32"
        using s1 by (simp add: e0 te tile_entry_fields)
      show "0 \<le> e_z e \<and> e_z e < 2 ^ 32"
        using z r4 by (simp add: e0 te tile_entry_fields)
      show "0 \<le> tile_x e \<and> tile_x e < 2 ^ 32"
        using tx nx by (simp add: e0 te tile_entry_fields tile_of_def)
      show "0 \<le> tile_y e \<and> tile_y e < 2 ^ 32"
        using ty ny by (simp add: e0 te tile_entry_fields tile_of_def)
      show "0 \<le> pixel_w e \<and> pixel_w e < 2 ^ 32" using pw by (simp add: e0)
      show "0 \<le> pixel_h e \<and> pixel_h e < 2 ^ 32" using ph by (simp add: e0)
      show "\<exists>ro. rel_offset e = Some ro \<and> 0 \<le> ro \<and> ro < 2 ^ 64"
        using ro0 ro1 by (simp add: e0)
      show "0 \<le> byte_length e \<and> byte_length e < 2 ^ 32"
        using bk blob [of k] k l0 by (simp add: e0)
    qed
  qed
  have "\<forall>x \<in> set (concat (map entry_fields es)). \<exists>bs. x = Inr bs"
    using fields by auto
  from write_each_total [OF this] obtain f2 where
    w2: "write_each (concat (map entry_fields es)) f1 = Inr f2" by blast
  from write_index_Inr [OF w2 p1]
  have c2: "contents f2 = contents f1 @ concat (map entry_bytes es)"
    and p2: "position f2 = length (contents f2)" by simp_all
  have tell2: "f_tell f2 = f_tell f1 + int (length ?es0) * 36"
    by (simp add: f_tell_def p2 c2 p1 length_concat_entry_bytes len)
  have "\<forall>x \<in> set (map Inr ?bs). \<exists>b. x = Inr b" by auto
  from write_each_total [OF this] obtain f3 where
    w3: "write_each (map Inr ?bs) f2 = Inr f3" by blast
  have sk: "f_seek (f_tell f1 - 16) f3 = Inr (f3\<lparr>position := nat (f_tell f1 - 16)\<rparr>)"
    using tell1 by (simp add: f_seek_def)
  have io: "0 \<le> f_tell f1" "f_tell f1 < 2 ^ 64" using tell1 nl by simp_all
  have dof: "0 \<le> f_tell f1 + int (length ?es0) * 36"
    "f_tell f1 + int (length ?es0) * 36 < 2 ^ 64"
    using tell1 nl count n by simp_all
  have "\<forall>x \<in> set [struct_pack_Q (f_tell f1),
                     struct_pack_Q (f_tell f1 + int (length ?es0) * 36)]. \<exists>b. x = Inr b"
    using io dof by (simp add: struct_pack_Q_def)
  from write_each_total [OF this] obtain f5 where
    w5: "write_each [struct_pack_Q (f_tell f1),
                     struct_pack_Q (f_tell f1 + int (length ?es0) * 36)]
           (f3\<lparr>position := nat (f_tell f1 - 16)\<rparr>) = Inr f5" by blast
  show ?thesis
    unfolding write_atlas_def
    by (simp add: hdr pl ao w2 tell2 w3 sk w5 Let_def del: write_each.simps)
qed

text \<open>
  The call succeeds on four layers of one size when every number fits its field: sizes,
  tile edge and LOD values below \<open>2 ^ 32\<close>, payloads shorter than \<open>2 ^ 32\<close> bytes, fewer
  than \<open>2 ^ 31\<close> tiles in all, and a library that resizes to each LOD size.
\<close>

lemma pack_atlas_3d_succeeds:
  assumes len: "int (length paths) = NUM_LAYERS"
    and opens: "\<forall>p \<in> set paths. \<exists>img. Image_open L p = Inr img \<and> width img = W \<and> height img = H"
    and W: "0 \<le> W" "W < 2 ^ 32" and H: "0 \<le> H" "H < 2 ^ 32"
    and t: "0 < t" "t < 2 ^ 32"
    and nl: "int (length lods) < 2 ^ 32"
    and ls: "\<forall>s \<in> set lods. 1 \<le> s \<and> s < 2 ^ 32"
    and rs: "\<forall>s \<in> set lods. s \<noteq> 1 \<longrightarrow> (\<forall>img. \<exists>p. resize_px L (W div s, H div s) img = Inr p)"
    and enc: "\<forall>img. int (length (save_png L img)) < 2 ^ 32"
    and n: "int (num_entries W H t lods) < 2 ^ 31"
  shows "\<exists>r bytes. pack_atlas_3d L paths t lods = (Inr r, Some bytes) \<and>
           src_width r = W \<and> src_height r = H"
proof -
  have ne: "paths \<noteq> []" using len by (auto simp: NUM_LAYERS_def)
  from load_layers_total [OF opens, of None "[]"] ne obtain imgs where
    ll: "load_layers L paths None [] = Inr (imgs, Some (W, H))" by auto
  from load_layers_Inr [OF ll] have li: "length imgs = 4"
    and sz: "\<forall>img \<in> set imgs. width img = W \<and> height img = H"
    using len by (simp_all add: NUM_LAYERS_def)
  from write_atlas_total [OF li sz W H t nl ls rs enc n] obtain r f where
    wa: "write_atlas L imgs W H t lods \<lparr>contents = [], position = 0\<rparr> = Inr (r, f)" by blast
  have "pack_atlas_3d L paths t lods = (Inr r, Some (contents f))"
    using len ll wa by (simp add: pack_atlas_3d_def)
  with write_atlas_Inr(6,7) [OF wa sz] show ?thesis by blast
qed

text \<open>A concrete call that succeeds: four 5 by 3 layers, tiles of edge 2, LODs 2 then 1.\<close>

lemma demo_run:
  "\<exists>r bytes. pack_atlas_3d demo_pil [''a'', ''b'', ''c'', ''d''] 2 [2, 1] = (Inr r, Some bytes) \<and>
     src_width r = 5 \<and> src_height r = 3"
proof (rule pack_atlas_3d_succeeds)
  show "int (length [''a'', ''b'', ''c'', ''d'']) = NUM_LAYERS" by (simp add: NUM_LAYERS_def)
  show "\<forall>p \<in> set [''a'', ''b'', ''c'', ''d''].
      \<exists>img. Image_open demo_pil p = Inr img \<and> width img = 5 \<and> height img = 3"
    by (simp add: demo_pil_def stub_pil_def)
  show "\<forall>s \<in> set [2, 1]. s \<noteq> 1 \<longrightarrow>
      (\<forall>img. \<exists>p. resize_px demo_pil (5 div s, 3 div s) img = Inr p)"
    by (simp add: demo_pil_def stub_pil_def)
  show "\<forall>img. int (length (save_png demo_pil img)) < 2 ^ 32"
    by (simp add: demo_pil_def stub_pil_def min_def)
  show "int (num_entries 5 3 2 [2, 1]) < 2 ^ 31"
    by (simp add: num_entries_def tiles_per_layer_def lod_dim_def ceil_quot_def)
qed simp_all

subsection \<open>The tile partitioner: order, boxes, partition\<close>

lemma grid_pairs:
  "map (\<lambda>(tx, ty, b). (tx, ty))
     (concat (map (\<lambda>j. map (\<lambda>i. tile_of W H t (int i) (int j)) [0..<nat m]) [0..<nat n])) =
   concat (map (\<lambda>ty. map (\<lambda>tx. (tx, ty)) [0..m - 1]) [0..n - 1])"
  by (simp add: map_concat comp_def tile_of_def upto_as_upt)

text \<open>
  C3. For a raster of non-negative size and a positive tile edge, all three below
  \<open>2 ^ 53\<close> (where the double quotient of line 41 has the exact ceiling), the
  partitioner yields the pairs \<open>(tile_x, tile_y)\<close> with \<open>tile_x\<close> in
  \<open>0 .. ceil(width / tile_px) - 1\<close> and \<open>tile_y\<close> in \<open>0 .. ceil(height / tile_px) - 1\<close>,
  rows outside and columns inside, and every box is \<open>x0 = tile_x * tile_px\<close>,
  \<open>x1 = min (x0 + tile_px) width\<close>, and the same on the other axis.
\<close>

theorem iter_tiles_row_major:
  assumes "0 \<le> width img" and "width img < 2 ^ 53"
    and "0 \<le> height img" and "height img < 2 ^ 53"
    and "0 < tile_px" and "tile_px < 2 ^ 53"
  shows "\<exists>ts. iter_tiles img tile_px = Inr ts \<and>
     map (\<lambda>(tx, ty, b). (tx, ty)) ts =
       concat (map (\<lambda>ty. map (\<lambda>tx. (tx, ty))
                 [0..\<lceil>real_of_int (width img) / real_of_int tile_px\<rceil> - 1])
               [0..\<lceil>real_of_int (height img) / real_of_int tile_px\<rceil> - 1]) \<and>
     (\<forall>(tx, ty, x0, y0, x1, y1) \<in> set ts.
        x0 = tx * tile_px \<and> x1 = min (x0 + tile_px) (width img) \<and>
        y0 = ty * tile_px \<and> y1 = min (y0 + tile_px) (height img))"
proof -
  let ?G = "concat (map (\<lambda>j. map (\<lambda>i. tile_of (width img) (height img) tile_px (int i) (int j))
                              [0..<nat (ceil_quot (width img) tile_px)])
                      [0..<nat (ceil_quot (height img) tile_px)])"
  have run: "iter_tiles img tile_px = Inr ?G"
    using iter_tiles_grid [OF assms] by (simp add: raster_tiles_def)
  have pairs: "map (\<lambda>(tx, ty, b). (tx, ty)) ?G =
       concat (map (\<lambda>ty. map (\<lambda>tx. (tx, ty))
                 [0..\<lceil>real_of_int (width img) / real_of_int tile_px\<rceil> - 1])
               [0..\<lceil>real_of_int (height img) / real_of_int tile_px\<rceil> - 1])"
    unfolding grid_pairs ceil_quot_real ..
  have boxes: "\<forall>(tx, ty, x0, y0, x1, y1) \<in> set ?G.
        x0 = tx * tile_px \<and> x1 = min (x0 + tile_px) (width img) \<and>
        y0 = ty * tile_px \<and> y1 = min (y0 + tile_px) (height img)"
    unfolding set_grid by (auto simp: tile_of_def)
  from run pairs boxes show ?thesis by blast
qed

theorem iter_tiles_row_major_witness:
  "\<exists>ts. iter_tiles \<lparr>width = 300, height = 300, mode = ''RGBA'', pixels = ()\<rparr> 256 = Inr ts \<and>
     map (\<lambda>(tx, ty, b). (tx, ty)) ts = [(0, 0), (1, 0), (0, 1), (1, 1)] \<and>
     map (\<lambda>(tx, ty, b). b) ts =
       [(0, 0, 256, 256), (256, 0, 300, 256), (0, 256, 256, 300), (256, 256, 300, 300)]"
  using iter_tiles_row_major [of "\<lparr>width = 300, height = 300, mode = ''RGBA'', pixels = ()\<rparr>" 256]
  by (simp add: iter_tiles_grid raster_tiles_def tile_of_def ceil_quot_def upt_conv_Cons)

text \<open>
  Without the bounds the property of C3 fails. For a \<open>5 \<times> 3\<close> raster and the tile edge
  \<open>2 ^ 1080\<close> both quotients of lines 41 and 42 underflow to the double \<open>0.0\<close>, so the
  partitioner yields no tile, while \<open>ceil(5 / 2 ^ 1080) = ceil(3 / 2 ^ 1080) = 1\<close> asks for
  the pair \<open>(0, 0)\<close>.
\<close>

theorem iter_tiles_row_major_counterexample:
  "iter_tiles \<lparr>width = 5, height = 3, mode = ''RGBA'', pixels = ()\<rparr> (2 ^ 1080) = Inr [] \<and>
   \<lceil>real_of_int 5 / real_of_int (2 ^ 1080)\<rceil> = 1 \<and>
   \<lceil>real_of_int 3 / real_of_int (2 ^ 1080)\<rceil> = 1"
proof -
  let ?I = "\<lparr>width = 5, height = 3, mode = ''RGBA'', pixels = ()\<rparr> :: unit image"
  have w: "ceil_truediv (width ?I) (2 ^ 1080) = Inr 0"
    by (rule ceil_truediv_underflow) simp_all
  have h: "ceil_truediv (height ?I) (2 ^ 1080) = Inr 0"
    by (rule ceil_truediv_underflow) simp_all
  have run: "iter_tiles ?I (2 ^ 1080) = Inr []"
    unfolding iter_tiles_def w h by simp
  have c5: "\<lceil>real_of_int 5 / real_of_int (2 ^ 1080)\<rceil> = 1"
    by (rule ceiling_unique) simp_all
  have c3: "\<lceil>real_of_int 3 / real_of_int (2 ^ 1080)\<rceil> = 1"
    by (rule ceiling_unique) simp_all
  from run c5 c3 show ?thesis by (intro conjI)
qed

text \<open>
  C9. For a raster of non-negative size and a positive tile edge, all three below
  \<open>2 ^ 53\<close>, the boxes the partitioner yields are non-empty and pairwise disjoint, their
  union is the pixel rectangle \<open>[0, width) \<times> [0, height)\<close>, and there are
  \<open>ceil(width / tile_px) * ceil(height / tile_px)\<close> of them (none when a side is zero).
\<close>

theorem iter_tiles_partition:
  assumes "0 \<le> width img" and "width img < 2 ^ 53"
    and "0 \<le> height img" and "height img < 2 ^ 53"
    and "0 < tile_px" and "tile_px < 2 ^ 53"
  shows "\<exists>ts. iter_tiles img tile_px = Inr ts \<and>
     length ts = nat (\<lceil>real_of_int (width img) / real_of_int tile_px\<rceil> *
                      \<lceil>real_of_int (height img) / real_of_int tile_px\<rceil>) \<and>
     (width img = 0 \<or> height img = 0 \<longrightarrow> ts = []) \<and>
     (\<forall>(tx, ty, x0, y0, x1, y1) \<in> set ts. x0 < x1 \<and> y0 < y1) \<and>
     (\<forall>i < length ts. \<forall>j < length ts. i \<noteq> j \<longrightarrow>
        box_pixels (snd (snd (ts ! i))) \<inter> box_pixels (snd (snd (ts ! j))) = {}) \<and>
     (\<Union>(tx, ty, b) \<in> set ts. box_pixels b) = {0..<width img} \<times> {0..<height img}"
proof -
  let ?W = "width img" and ?H = "height img" and ?t = tile_px
  let ?nx = "ceil_quot ?W ?t" and ?ny = "ceil_quot ?H ?t"
  let ?G = "concat (map (\<lambda>j. map (\<lambda>i. tile_of ?W ?H ?t (int i) (int j)) [0..<nat ?nx])
                      [0..<nat ?ny])"
  have t: "0 < ?t" by (rule assms(5))
  have nx: "0 \<le> ?nx" and ny: "0 \<le> ?ny"
    using assms by (simp_all add: ceil_quot_nonneg)
  have run: "iter_tiles img ?t = Inr ?G"
    using iter_tiles_grid [OF assms] by (simp add: raster_tiles_def)
  have len: "length ?G = nat ?nx * nat ?ny" by (rule length_grid)
  have len': "length ?G = nat (\<lceil>real_of_int ?W / real_of_int ?t\<rceil> * \<lceil>real_of_int ?H / real_of_int ?t\<rceil>)"
    using len nx ny by (simp add: nat_mult_distrib ceil_quot_real)
  have empty: "?W = 0 \<or> ?H = 0 \<longrightarrow> ?G = []"
  proof
    assume "?W = 0 \<or> ?H = 0"
    then have "?nx = 0 \<or> ?ny = 0" by (auto simp: ceil_quot_def)
    then have "length ?G = 0" unfolding len by auto
    then show "?G = []" by simp
  qed
  have S: "set ?G = (\<Union>j\<in>{0..<?ny}. (\<lambda>i. tile_of ?W ?H ?t i j) ` {0..<?nx})"
    by (rule set_grid)
  have nonempty: "\<forall>(tx, ty, x0, y0, x1, y1) \<in> set ?G. x0 < x1 \<and> y0 < y1"
    unfolding S using tile_nonempty [OF t] by (auto simp: tile_of_def)
  have nth: "?G ! k = tile_of ?W ?H ?t (int (k mod nat ?nx)) (int (k div nat ?nx))"
    if "k < length ?G" for k
    using that unfolding len by (rule nth_grid)
  have coords: "0 \<le> int (k mod nat ?nx) \<and> int (k mod nat ?nx) < ?nx \<and>
                0 \<le> int (k div nat ?nx) \<and> int (k div nat ?nx) < ?ny"
    if "k < length ?G" for k
  proof -
    have pos: "0 < nat ?nx" using that unfolding len by (cases "nat ?nx") simp_all
    then have "k mod nat ?nx < nat ?nx" by simp
    moreover have "k div nat ?nx < nat ?ny"
      using that unfolding len by (simp add: less_mult_imp_div_less mult.commute)
    ultimately show ?thesis by linarith
  qed
  have disjoint: "\<forall>i < length ?G. \<forall>j < length ?G. i \<noteq> j \<longrightarrow>
        box_pixels (snd (snd (?G ! i))) \<inter> box_pixels (snd (snd (?G ! j))) = {}"
  proof (intro allI impI)
    fix i j assume i: "i < length ?G" and j: "j < length ?G" and ne: "i \<noteq> j"
    show "box_pixels (snd (snd (?G ! i))) \<inter> box_pixels (snd (snd (?G ! j))) = {}"
    proof (rule ccontr)
      assume "box_pixels (snd (snd (?G ! i))) \<inter> box_pixels (snd (snd (?G ! j))) \<noteq> {}"
      then obtain x y where xi: "(x, y) \<in> box_pixels (snd (snd (?G ! i)))"
        and xj: "(x, y) \<in> box_pixels (snd (snd (?G ! j)))" by auto
      have ci: "x div ?t = int (i mod nat ?nx) \<and> y div ?t = int (i div nat ?nx)"
        using xi coords [OF i] tile_pixels [OF t, of "int (i mod nat ?nx)" ?W "int (i div nat ?nx)" ?H x y]
        unfolding nth [OF i] by simp
      have cj: "x div ?t = int (j mod nat ?nx) \<and> y div ?t = int (j div nat ?nx)"
        using xj coords [OF j] tile_pixels [OF t, of "int (j mod nat ?nx)" ?W "int (j div nat ?nx)" ?H x y]
        unfolding nth [OF j] by simp
      from ci cj have "i mod nat ?nx = j mod nat ?nx" "i div nat ?nx = j div nat ?nx"
        by simp_all
      then have "i = j" by (metis div_mult_mod_eq)
      with ne show False by simp
    qed
  qed
  have cover: "(\<Union>(tx, ty, b) \<in> set ?G. box_pixels b) = {0..<?W} \<times> {0..<?H}"
  proof (rule set_eqI)
    fix p :: "int \<times> int"
    obtain x y where p: "p = (x, y)" by (cases p)
    have "p \<in> (\<Union>(tx, ty, b) \<in> set ?G. box_pixels b) \<longleftrightarrow>
          (\<exists>j\<in>{0..<?ny}. \<exists>i\<in>{0..<?nx}. (x, y) \<in> box_pixels (snd (snd (tile_of ?W ?H ?t i j))))"
      unfolding S p by (auto simp: tile_of_def)
    also have "\<dots> \<longleftrightarrow> (\<exists>j\<in>{0..<?ny}. \<exists>i\<in>{0..<?nx}.
          0 \<le> x \<and> x < ?W \<and> 0 \<le> y \<and> y < ?H \<and> x div ?t = i \<and> y div ?t = j)"
      using tile_pixels [OF t, of _ ?W _ ?H x y] by auto
    also have "\<dots> \<longleftrightarrow> 0 \<le> x \<and> x < ?W \<and> 0 \<le> y \<and> y < ?H"
    proof
      assume "\<exists>j\<in>{0..<?ny}. \<exists>i\<in>{0..<?nx}.
          0 \<le> x \<and> x < ?W \<and> 0 \<le> y \<and> y < ?H \<and> x div ?t = i \<and> y div ?t = j"
      then show "0 \<le> x \<and> x < ?W \<and> 0 \<le> y \<and> y < ?H" by blast
    next
      assume a: "0 \<le> x \<and> x < ?W \<and> 0 \<le> y \<and> y < ?H"
      then have "x div ?t < ?nx" "y div ?t < ?ny" "0 \<le> x div ?t" "0 \<le> y div ?t"
        using t by (simp_all add: div_less_ceil_quot pos_imp_zdiv_nonneg_iff)
      with a show "\<exists>j\<in>{0..<?ny}. \<exists>i\<in>{0..<?nx}.
          0 \<le> x \<and> x < ?W \<and> 0 \<le> y \<and> y < ?H \<and> x div ?t = i \<and> y div ?t = j"
        by simp
    qed
    finally show "p \<in> (\<Union>(tx, ty, b) \<in> set ?G. box_pixels b) \<longleftrightarrow> p \<in> {0..<?W} \<times> {0..<?H}"
      by (simp add: p)
  qed
  from run len' empty nonempty disjoint cover show ?thesis by blast
qed



theorem iter_tiles_partition_witness:
  "\<exists>ts. iter_tiles \<lparr>width = 5, height = 3, mode = ''RGBA'', pixels = ()\<rparr> 2 = Inr ts \<and>
     length ts = 6 \<and>
     map (\<lambda>(tx, ty, b). b) ts =
       [(0, 0, 2, 2), (2, 0, 4, 2), (4, 0, 5, 2), (0, 2, 2, 3), (2, 2, 4, 3), (4, 2, 5, 3)] \<and>
     (\<forall>i < length ts. \<forall>j < length ts. i \<noteq> j \<longrightarrow>
        box_pixels (snd (snd (ts ! i))) \<inter> box_pixels (snd (snd (ts ! j))) = {}) \<and>
     (\<Union>(tx, ty, b) \<in> set ts. box_pixels b) = {0..<5} \<times> {0..<3}"
proof -
  let ?I = "\<lparr>width = 5, height = 3, mode = ''RGBA'', pixels = ()\<rparr> :: unit image"
  have hyp: "0 \<le> width ?I" "width ?I < 2 ^ 53" "0 \<le> height ?I" "height ?I < 2 ^ 53"
      "(0::int) < 2" "(2::int) < 2 ^ 53" by simp_all
  have run: "iter_tiles ?I 2 =
      Inr [(0, 0, 0, 0, 2, 2), (1, 0, 2, 0, 4, 2), (2, 0, 4, 0, 5, 2),
           (0, 1, 0, 2, 2, 3), (1, 1, 2, 2, 4, 3), (2, 1, 4, 2, 5, 3)]"
    by (simp add: iter_tiles_grid raster_tiles_def tile_of_def ceil_quot_def upt_conv_Cons)
  from iter_tiles_partition [OF hyp] obtain ts where ts: "iter_tiles ?I 2 = Inr ts"
    and dj: "\<forall>i < length ts. \<forall>j < length ts. i \<noteq> j \<longrightarrow>
        box_pixels (snd (snd (ts ! i))) \<inter> box_pixels (snd (snd (ts ! j))) = {}"
    and un: "(\<Union>(tx, ty, b) \<in> set ts. box_pixels b) = {0..<width ?I} \<times> {0..<height ?I}"
    by blast
  from ts run have e: "ts = [(0, 0, 0, 0, 2, 2), (1, 0, 2, 0, 4, 2), (2, 0, 4, 0, 5, 2),
           (0, 1, 0, 2, 2, 3), (1, 1, 2, 2, 4, 3), (2, 1, 4, 2, 5, 3)]" by simp
  have l: "length ts = 6" and m: "map (\<lambda>(tx, ty, b). b) ts =
       [(0, 0, 2, 2), (2, 0, 4, 2), (4, 0, 5, 2), (0, 2, 2, 3), (2, 2, 4, 3), (4, 2, 5, 3)]"
    by (simp_all add: e)
  have wh: "width ?I = 5" "height ?I = 3" by simp_all
  note un' = un [unfolded wh]
  show ?thesis by (intro exI [of _ ts] conjI ts l m dj un')
qed

text \<open>
  Without the bounds the property of C9 fails. For a raster of width \<open>2 ^ 53 + 1\<close> and
  height \<open>1\<close> and the tile edge \<open>2 ^ 52\<close>, the quotient of line 41 is a tie and rounds to
  the double \<open>2.0\<close>: the partitioner yields two boxes where
  \<open>ceil(width / tile_px) * ceil(height / tile_px) = 3\<close>, and the pixel \<open>(2 ^ 53, 0)\<close> of the
  raster lies in neither.
\<close>

theorem iter_tiles_partition_counterexample:
  "iter_tiles \<lparr>width = 2 ^ 53 + 1, height = 1, mode = ''RGBA'', pixels = ()\<rparr> (2 ^ 52) =
     Inr [(0, 0, 0, 0, 2 ^ 52, 1), (1, 0, 2 ^ 52, 0, 2 ^ 53, 1)] \<and>
   \<lceil>real_of_int (2 ^ 53 + 1) / real_of_int (2 ^ 52)\<rceil> * \<lceil>real_of_int 1 / real_of_int (2 ^ 52)\<rceil> = 3 \<and>
   (2 ^ 53, 0) \<notin> box_pixels (0, 0, 2 ^ 52, 1) \<and>
   (2 ^ 53, 0) \<notin> box_pixels (2 ^ 52, 0, 2 ^ 53, 1) \<and>
   (0 :: int) \<le> 2 ^ 53 \<and> (2 ^ 53 :: int) < 2 ^ 53 + 1"
proof -
  let ?I = "\<lparr>width = 2 ^ 53 + 1, height = 1, mode = ''RGBA'', pixels = ()\<rparr> :: unit image"
  have w: "ceil_truediv (2 ^ 53 + 1) (2 ^ 52) = Inr 2" by (rule ceil_truediv_tie)
  have h: "ceil_truediv 1 (2 ^ 52) = Inr 1"
    using ceil_truediv_exact [of 1 "2 ^ 52"] by (simp add: ceil_quot_def)
  have run: "iter_tiles ?I (2 ^ 52) =
     Inr [(0, 0, 0, 0, 2 ^ 52, 1), (1, 0, 2 ^ 52, 0, 2 ^ 53, 1)]"
    unfolding iter_tiles_def image.simps w h by (simp add: upto.simps)
  have c: "\<lceil>real_of_int (2 ^ 53 + 1) / real_of_int (2 ^ 52)\<rceil> * \<lceil>real_of_int 1 / real_of_int (2 ^ 52)\<rceil> = 3"
  proof -
    have "\<lceil>real_of_int (2 ^ 53 + 1) / real_of_int (2 ^ 52)\<rceil> = 3"
      by (rule ceiling_unique) simp_all
    moreover have "\<lceil>real_of_int 1 / real_of_int (2 ^ 52)\<rceil> = 1"
      by (rule ceiling_unique) simp_all
    ultimately show ?thesis by simp
  qed
  have o1: "(2 ^ 53, 0) \<notin> box_pixels (0, 0, 2 ^ 52, 1)"
    and o2: "(2 ^ 53, 0) \<notin> box_pixels (2 ^ 52, 0, 2 ^ 53, 1)"
    by (simp_all add: box_pixels_def)
  show ?thesis by (intro conjI run c o1 o2) simp_all
qed

subsection \<open>Validation before the output is opened\<close>

lemma width_normalised:
  "width (if mode img0 \<noteq> ''RGBA'' then convert L img0 ''RGBA'' else img0) = width img0"
  "height (if mode img0 \<noteq> ''RGBA'' then convert L img0 ''RGBA'' else img0) = height img0"
  by (simp_all add: convert_def)

lemma load_layers_mismatch:
  assumes "\<forall>p \<in> set paths. \<exists>img. Image_open L p = Inr img"
    and "\<exists>p \<in> set paths. width (projr (Image_open L p)) \<noteq> W \<or>
                            height (projr (Image_open L p)) \<noteq> H"
  shows "\<exists>p \<in> set paths. \<exists>w h.
           load_layers L paths (Some (W, H)) acc = Inl (LayerSizeMismatch W H p w h) \<and>
           w = width (projr (Image_open L p)) \<and> h = height (projr (Image_open L p)) \<and>
           (w \<noteq> W \<or> h \<noteq> H)"
  using assms
proof (induction paths arbitrary: acc)
  case Nil then show ?case by simp
next
  case (Cons path rest)
  from Cons.prems(1) obtain img0 where op: "Image_open L path = Inr img0" by auto
  show ?case
  proof (cases "width img0 \<noteq> W \<or> height img0 \<noteq> H")
    case True
    then have "load_layers L (path # rest) (Some (W, H)) acc =
        Inl (LayerSizeMismatch W H path (width img0) (height img0))"
      using op by (simp add: Let_def width_normalised)
    with True op show ?thesis by simp
  next
    case False
    then have step: "load_layers L (path # rest) (Some (W, H)) acc =
        load_layers L rest (Some (W, H))
          (acc @ [if mode img0 \<noteq> ''RGBA'' then convert L img0 ''RGBA'' else img0])"
      using op by (simp add: Let_def width_normalised)
    have 1: "\<forall>p \<in> set rest. \<exists>img. Image_open L p = Inr img" using Cons.prems(1) by simp
    have 2: "\<exists>p \<in> set rest. width (projr (Image_open L p)) \<noteq> W \<or>
                            height (projr (Image_open L p)) \<noteq> H"
      using Cons.prems(2) False op by auto
    from Cons.IH [OF 1 2, of "acc @ [if mode img0 \<noteq> ''RGBA'' then convert L img0 ''RGBA'' else img0]"]
    show ?thesis unfolding step by auto
  qed
qed

text \<open>
  C7. A call with a number of layer sources other than \<open>NUM_LAYERS = 4\<close> fails with
  the layer-count error, and the output path is never opened.
\<close>

theorem pack_layer_count_mismatch:
  "int (length src_png_paths) \<noteq> NUM_LAYERS \<Longrightarrow>
   pack_atlas_3d L src_png_paths tile_px lods =
     (Inl (LayerCountMismatch (length src_png_paths)), None)"
  by (simp add: pack_atlas_3d_def)

theorem pack_layer_count_mismatch_witness:
  "int (length [''a'', ''b'', ''c'']) \<noteq> NUM_LAYERS \<and>
   pack_atlas_3d (stub_pil (\<lambda>p. (5, 3)) (\<lambda>img. [7])) [''a'', ''b'', ''c''] 2 [1, 2] =
     (Inl (LayerCountMismatch 3), None)"
  using pack_layer_count_mismatch
    [of "[''a'', ''b'', ''c'']" "stub_pil (\<lambda>p. (5, 3)) (\<lambda>img. [7])" 2 "[1, 2]"]
  by (simp add: NUM_LAYERS_def)

text \<open>
  C8. When the four layers all open and one of them differs in width or height from the
  first, the call fails with the size error of line 85, naming the reference size and an
  offending path, and the output path is never opened.
\<close>

theorem pack_layer_size_mismatch:
  assumes "int (length src_png_paths) = NUM_LAYERS"
    and "\<forall>p \<in> set src_png_paths. \<exists>img. Image_open L p = Inr img"
    and "\<exists>p \<in> set src_png_paths.
           width (projr (Image_open L p)) \<noteq> width (projr (Image_open L (hd src_png_paths))) \<or>
           height (projr (Image_open L p)) \<noteq> height (projr (Image_open L (hd src_png_paths)))"
  shows "\<exists>p \<in> set src_png_paths. \<exists>w h.
           pack_atlas_3d L src_png_paths tile_px lods =
             (Inl (LayerSizeMismatch (width (projr (Image_open L (hd src_png_paths))))
                                     (height (projr (Image_open L (hd src_png_paths)))) p w h),
              None) \<and>
           w = width (projr (Image_open L p)) \<and> h = height (projr (Image_open L p)) \<and>
           (w \<noteq> width (projr (Image_open L (hd src_png_paths))) \<or>
            h \<noteq> height (projr (Image_open L (hd src_png_paths))))"
proof -
  from assms(1) obtain p0 rest where paths: "src_png_paths = p0 # rest"
    by (cases src_png_paths) (simp_all add: NUM_LAYERS_def)
  from assms(2) paths obtain img0 where op: "Image_open L p0 = Inr img0" by auto
  let ?img = "if mode img0 \<noteq> ''RGBA'' then convert L img0 ''RGBA'' else img0"
  let ?W = "width img0" and ?H = "height img0"
  have first: "load_layers L src_png_paths None [] =
      load_layers L rest (Some (?W, ?H)) ([] @ [?img])"
    unfolding paths using op by (simp add: Let_def width_normalised)
  have 1: "\<forall>p \<in> set rest. \<exists>img. Image_open L p = Inr img" using assms(2) paths by simp
  have 2: "\<exists>p \<in> set rest. width (projr (Image_open L p)) \<noteq> ?W \<or>
                            height (projr (Image_open L p)) \<noteq> ?H"
    using assms(3) paths op by auto
  from load_layers_mismatch [OF 1 2, of "[] @ [?img]"] obtain p w h where
    p: "p \<in> set rest" and
    e: "load_layers L rest (Some (?W, ?H)) ([] @ [?img]) = Inl (LayerSizeMismatch ?W ?H p w h)" and
    wh: "w = width (projr (Image_open L p))" "h = height (projr (Image_open L p))"
        "w \<noteq> ?W \<or> h \<noteq> ?H"
    by blast
  have "pack_atlas_3d L src_png_paths tile_px lods = (Inl (LayerSizeMismatch ?W ?H p w h), None)"
    using assms(1) first e by (simp add: pack_atlas_3d_def)
  with p wh show ?thesis unfolding paths using op by auto
qed

theorem pack_layer_size_mismatch_witness:
  "pack_atlas_3d (stub_pil (\<lambda>p. if p = ''c'' then (5, 4) else (5, 3)) (\<lambda>img. [7]))
     [''a'', ''b'', ''c'', ''d''] 2 [1, 2] =
     (Inl (LayerSizeMismatch 5 3 ''c'' 5 4), None)"
proof -
  let ?L = "stub_pil (\<lambda>p. if p = ''c'' then (5, 4) else (5, 3)) (\<lambda>img. [7])"
  let ?ps = "[''a'', ''b'', ''c'', ''d'']"
  have 1: "int (length ?ps) = NUM_LAYERS" by (simp add: NUM_LAYERS_def)
  have 2: "\<forall>p \<in> set ?ps. \<exists>img. Image_open ?L p = Inr img" by (simp add: stub_pil_def)
  have 3: "\<exists>p \<in> set ?ps.
           width (projr (Image_open ?L p)) \<noteq> width (projr (Image_open ?L (hd ?ps))) \<or>
           height (projr (Image_open ?L p)) \<noteq> height (projr (Image_open ?L (hd ?ps)))"
    by (simp add: stub_pil_def)
  from pack_layer_size_mismatch [OF 1 2 3, of 2 "[1, 2]"] obtain p w h where
    p: "p \<in> set ?ps" and
    e: "pack_atlas_3d ?L ?ps 2 [1, 2] =
          (Inl (LayerSizeMismatch (width (projr (Image_open ?L (hd ?ps))))
                                  (height (projr (Image_open ?L (hd ?ps)))) p w h), None)" and
    wh: "w = width (projr (Image_open ?L p))" "h = height (projr (Image_open ?L p))"
        "w \<noteq> width (projr (Image_open ?L (hd ?ps))) \<or>
         h \<noteq> height (projr (Image_open ?L (hd ?ps)))"
    by blast
  have hd: "width (projr (Image_open ?L (hd ?ps))) = 5" "height (projr (Image_open ?L (hd ?ps))) = 3"
    by (simp_all add: stub_pil_def)
  from p wh have "p = ''c''" by (auto simp: stub_pil_def split: if_splits)
  with e wh hd show ?thesis by (simp add: stub_pil_def)
qed

subsection \<open>Offsets of the index entries\<close>

lemma length_concat_nth:
  "int (length (concat bs)) = (\<Sum>j<length bs. int (length (bs ! j)))"
proof (induction bs rule: rev_induct)
  case Nil show ?case by simp
next
  case (snoc b bs)
  have "(\<Sum>j<length bs. int (length ((bs @ [b]) ! j))) =
        (\<Sum>j<length bs. int (length (bs ! j)))"
    by (intro sum.cong) (simp_all add: nth_append)
  with snoc show ?case by simp
qed

text \<open>
  C1. In a successful run the index entries are in production order (LODs as supplied,
  layers 0 to 3, tiles row-major), the first has relative offset 0, each next one starts
  where the previous payload ends, and the last payload ends at the end of the file.
\<close>

theorem pack_offsets_contiguous:
  assumes run: "pack_atlas_3d L src_png_paths tile_px lods = (Inr r, Some bytes)"
  shows "map entry_key (index_entries r) =
           concat (map (lod_keys (src_width r) (src_height r) tile_px) lods) \<and>
         (index_entries r \<noteq> [] \<longrightarrow> rel_offset (index_entries r ! 0) = Some 0) \<and>
         (\<forall>k. Suc k < length (index_entries r) \<longrightarrow>
            (\<exists>off. rel_offset (index_entries r ! k) = Some off \<and>
                   rel_offset (index_entries r ! Suc k) =
                     Some (off + byte_length (index_entries r ! k)))) \<and>
         (index_entries r \<noteq> [] \<longrightarrow>
            (\<exists>off. rel_offset (last (index_entries r)) = Some off \<and>
                   off + byte_length (last (index_entries r)) =
                     int (length bytes) - data_offset r))"
proof -
  let ?es = "index_entries r" and ?bs = "tile_data_blobs r"
  note E = pack_run_entries [OF run]
  note Y = pack_run_layout [OF run]
  have ro: "rel_offset (?es ! k) = Some (\<Sum>j<k. int (length (?bs ! j)))"
    if "k < length ?es" for k
    using E(3) that by simp
  have bl: "byte_length (?es ! k) = int (length (?bs ! k))" if "k < length ?es" for k
    using E(4) that by simp
  have first: "?es \<noteq> [] \<longrightarrow> rel_offset (?es ! 0) = Some 0"
    using ro [of 0] by simp
  have step: "\<forall>k. Suc k < length ?es \<longrightarrow>
            (\<exists>off. rel_offset (?es ! k) = Some off \<and>
                   rel_offset (?es ! Suc k) = Some (off + byte_length (?es ! k)))"
  proof (intro allI impI)
    fix k assume k: "Suc k < length ?es"
    then have "rel_offset (?es ! Suc k) =
        Some ((\<Sum>j<k. int (length (?bs ! j))) + byte_length (?es ! k))"
      using ro [of "Suc k"] bl [of k] by simp
    with ro [of k] k show "\<exists>off. rel_offset (?es ! k) = Some off \<and>
        rel_offset (?es ! Suc k) = Some (off + byte_length (?es ! k))" by simp
  qed
  have size: "int (length bytes) = data_offset r + int (length (concat ?bs))"
    using Y by (simp add: length_header_bytes length_concat_entry_bytes)
  have final: "?es \<noteq> [] \<longrightarrow>
            (\<exists>off. rel_offset (last ?es) = Some off \<and>
                   off + byte_length (last ?es) = int (length bytes) - data_offset r)"
  proof
    assume ne: "?es \<noteq> []"
    define m where "m = length ?es - 1"
    have m: "m < length ?es" "Suc m = length ?es" using ne by (simp_all add: m_def)
    have l: "last ?es = ?es ! m" using ne by (simp add: last_conv_nth m_def)
    have "(\<Sum>j<m. int (length (?bs ! j))) + byte_length (?es ! m) =
          (\<Sum>j<Suc m. int (length (?bs ! j)))"
      using bl [OF m(1)] by simp
    also have "\<dots> = int (length (concat ?bs))"
      unfolding m(2) E(1) by (rule length_concat_nth [symmetric])
    finally show "\<exists>off. rel_offset (last ?es) = Some off \<and>
        off + byte_length (last ?es) = int (length bytes) - data_offset r"
      using ro [OF m(1)] l size by simp
  qed
  from pack_run_keys [OF run] first step final show ?thesis by blast
qed

theorem pack_offsets_contiguous_witness:
  "\<exists>r bytes. pack_atlas_3d demo_pil [''a'', ''b'', ''c'', ''d''] 2 [2, 1] = (Inr r, Some bytes) \<and>
     length (index_entries r) = 28 \<and>
     rel_offset (index_entries r ! 0) = Some 0 \<and>
     (\<exists>off. rel_offset (index_entries r ! 0) = Some off \<and>
            rel_offset (index_entries r ! 1) = Some (off + byte_length (index_entries r ! 0))) \<and>
     (\<exists>off. rel_offset (last (index_entries r)) = Some off \<and>
            off + byte_length (last (index_entries r)) = int (length bytes) - data_offset r)"
proof -
  from demo_run obtain r bytes where
    run: "pack_atlas_3d demo_pil [''a'', ''b'', ''c'', ''d''] 2 [2, 1] = (Inr r, Some bytes)"
    and d: "src_width r = 5" "src_height r = 3" by blast
  note T = pack_offsets_contiguous [OF run]
  from T have "length (map entry_key (index_entries r)) =
      length (concat (map (lod_keys (src_width r) (src_height r) 2) [2, 1]))" by simp
  then have len: "length (index_entries r) = 28"
    unfolding length_production_keys d
    by (simp add: num_entries_def tiles_per_layer_def lod_dim_def ceil_quot_def)
  then have ne: "index_entries r \<noteq> []" and s: "Suc 0 < length (index_entries r)" by auto
  from T ne have a: "rel_offset (index_entries r ! 0) = Some 0" by blast
  from T s have b: "\<exists>off. rel_offset (index_entries r ! 0) = Some off \<and>
            rel_offset (index_entries r ! 1) = Some (off + byte_length (index_entries r ! 0))"
    by (metis One_nat_def)
  from T ne have c: "\<exists>off. rel_offset (last (index_entries r)) = Some off \<and>
            off + byte_length (last (index_entries r)) = int (length bytes) - data_offset r"
    by blast
  from run len a b c show ?thesis by blast
qed

subsection \<open>The header offsets\<close>

lemma tiles_per_layer_pos:
  assumes "0 < t" "1 \<le> s" "s \<le> W" "s \<le> H"
  shows "0 < tiles_per_layer W H t s"
proof -
  have d: "1 \<le> lod_dim d s" if sd: "s \<le> d" for d
  proof -
    have "1 \<le> d div s"
    proof (rule ccontr)
      assume "\<not> 1 \<le> d div s"
      then have "d div s \<le> 0" by simp
      then have "d div s * s \<le> 0" using assms(2) by (simp add: mult_nonpos_nonneg)
      moreover have "d < d div s * s + s"
        using div_eq_iff_int [of s d "d div s"] assms(2) by simp
      ultimately show False using sd by linarith
    qed
    then show ?thesis using sd assms(2) by (simp add: lod_dim_def)
  qed
  have c: "0 < ceil_quot a t" if a: "1 \<le> a" for a
  proof (rule ccontr)
    assume "\<not> 0 < ceil_quot a t"
    then have "ceil_quot a t * t \<le> 0" using assms(1) by (simp add: mult_nonpos_nonneg)
    with ceil_quot_bounds(2) [OF assms(1), of a] a show False by linarith
  qed
  from c [OF d [OF assms(3)]] c [OF d [OF assms(4)]] show ?thesis
    by (simp add: tiles_per_layer_def)
qed

lemma num_entries_pos:
  assumes "s \<in> set lods" "0 < tiles_per_layer W H t s"
  shows "0 < num_entries W H t lods"
proof -
  have "4 * tiles_per_layer W H t s \<in> set (map (\<lambda>s. 4 * tiles_per_layer W H t s) lods)"
    using assms(1) by simp
  from member_le_sum_list [OF this] assms(2) show ?thesis
    by (simp add: num_entries_def)
qed

lemma pack_run_count:
  assumes run: "pack_atlas_3d L paths t lods = (Inr r, out)"
  shows "length (index_entries r) = num_entries (src_width r) (src_height r) t lods"
  using arg_cong [OF pack_run_keys [OF run], of length]
  by (simp only: length_map length_production_keys)

text \<open>
  C2. In a successful run over a non-empty LOD list whose factors do not exceed the
  layers' width and height (so that no LOD raster is empty), the index table starts
  before the data section, which starts within the file; the two are exactly 36 bytes per
  index entry apart; the header was first written with zeros in its two offset fields,
  and in the final file these fields hold the offsets at which the index records and the
  payloads really start.
\<close>

theorem pack_offsets_patched:
  assumes run: "pack_atlas_3d L src_png_paths tile_px lods = (Inr r, Some bytes)"
    and ne: "lods \<noteq> []"
    and fit: "\<forall>s \<in> set lods. s \<le> src_width r \<and> s \<le> src_height r"
  shows "index_offset r < data_offset r \<and> data_offset r \<le> int (length bytes) \<and>
         data_offset r = index_offset r + 36 * int (length (index_entries r)) \<and>
         (data_offset r - index_offset r) mod 36 = 0 \<and>
         (\<exists>f1. write_header (src_width r) (src_height r) tile_px lods
                  \<lparr>contents = [], position = 0\<rparr> = Inr f1 \<and>
               length (contents f1) = nat (header_end r) \<and>
               le_int (take 8 (drop (nat (header_end r) - 16) (contents f1))) = 0 \<and>
               le_int (take 8 (drop (nat (header_end r) - 8) (contents f1))) = 0) \<and>
         le_int (take 8 (drop (nat (header_end r) - 16) bytes)) = index_offset r \<and>
         le_int (take 8 (drop (nat (header_end r) - 8) bytes)) = data_offset r \<and>
         take (36 * length (index_entries r)) (drop (nat (index_offset r)) bytes) =
           concat (map entry_bytes (index_entries r)) \<and>
         drop (nat (data_offset r)) bytes = concat (tile_data_blobs r)"
proof -
  let ?W = "src_width r" and ?H = "src_height r" and ?t = tile_px
  let ?P = "header_prefix ?W ?H ?t lods"
  let ?idx = "concat (map entry_bytes (index_entries r))"
  let ?dat = "concat (tile_data_blobs r)"
  note Y = pack_run_layout [OF run]
  note B = pack_run_bounds [OF run]
  from pack_atlas_3d_Inr(4) [OF run] obtain f where
    wa: "write_atlas L (base_images r) ?W ?H ?t lods \<lparr>contents = [], position = 0\<rparr> = Inr (r, f)"
    by blast
  note A = write_atlas_Inr [OF wa pack_atlas_3d_Inr(3) [OF run]]
  have bytes: "bytes = ?P @ le_bytes 8 (index_offset r) @ le_bytes 8 (data_offset r) @ ?idx @ ?dat"
    using Y(4) by (simp add: header_bytes_def)
  have lp: "length ?P = nat (header_end r) - 16" "length (?P @ le_bytes 8 (index_offset r)) = nat (header_end r) - 8"
    by (simp_all add: Y(1) length_header_prefix length_le_bytes nat_add_distrib)
  have he: "nat (header_end r) = 56 + 4 * length lods"
    by (simp add: Y(1) nat_add_distrib)
  have io: "0 \<le> index_offset r" "index_offset r < 256 ^ 8"
    using Y(1,2) B(4) A(16) Y(3) by simp_all
  have dof: "0 \<le> data_offset r" "data_offset r < 256 ^ 8"
    using A(16) by simp_all
  \<comment> \<open>at least one index entry\<close>
  from ne obtain s where s: "s \<in> set lods" by (cases lods) auto
  have "0 < tiles_per_layer ?W ?H ?t s"
    using B(3) B(4) fit s by (intro tiles_per_layer_pos) auto
  from num_entries_pos [OF s this] have n: "0 < length (index_entries r)"
    by (simp add: pack_run_count [OF run])
  have 1: "index_offset r < data_offset r" using Y(3) n by simp
  have 2: "data_offset r \<le> int (length bytes)"
    by (simp add: bytes Y length_header_prefix length_le_bytes length_concat_entry_bytes)
  have 3: "data_offset r = index_offset r + 36 * int (length (index_entries r))" by (rule Y(3))
  have 4: "(data_offset r - index_offset r) mod 36 = 0" by (simp add: Y(3))
  from A(15) obtain f1 where
    h1: "write_header ?W ?H ?t lods \<lparr>contents = [], position = 0\<rparr> = Inr f1" and
    c1: "contents f1 = ?P @ le_bytes 8 0 @ le_bytes 8 0"
    by (auto simp: header_bytes_def)
  have z: "le_int (le_bytes 8 0) = 0" by (rule le_int_le_bytes) simp_all
  have 5: "length (contents f1) = nat (header_end r) \<and>
      le_int (take 8 (drop (nat (header_end r) - 16) (contents f1))) = 0 \<and>
      le_int (take 8 (drop (nat (header_end r) - 8) (contents f1))) = 0"
  proof (intro conjI)
    show "length (contents f1) = nat (header_end r)"
      by (simp add: c1 he length_header_prefix length_le_bytes)
    have "drop (nat (header_end r) - 16) (contents f1) = le_bytes 8 0 @ le_bytes 8 0"
      unfolding c1 lp(1) [symmetric] by simp
    then show "le_int (take 8 (drop (nat (header_end r) - 16) (contents f1))) = 0"
      by (simp add: length_le_bytes z)
    have "contents f1 = (?P @ le_bytes 8 0) @ le_bytes 8 0" by (simp add: c1)
    moreover have "length (?P @ le_bytes 8 0) = nat (header_end r) - 8"
      by (simp add: he length_header_prefix length_le_bytes)
    ultimately have "drop (nat (header_end r) - 8) (contents f1) = le_bytes 8 0"
      by (metis append_eq_conv_conj)
    then show "le_int (take 8 (drop (nat (header_end r) - 8) (contents f1))) = 0"
      by (simp add: length_le_bytes z)
  qed
  have "drop (nat (header_end r) - 16) bytes =
      le_bytes 8 (index_offset r) @ le_bytes 8 (data_offset r) @ ?idx @ ?dat"
    unfolding lp(1) [symmetric] bytes by simp
  then have 6: "le_int (take 8 (drop (nat (header_end r) - 16) bytes)) = index_offset r"
    by (simp add: length_le_bytes le_int_le_bytes [OF io])
  have "bytes = (?P @ le_bytes 8 (index_offset r)) @ le_bytes 8 (data_offset r) @ ?idx @ ?dat"
    by (simp add: bytes)
  then have "drop (nat (header_end r) - 8) bytes = le_bytes 8 (data_offset r) @ ?idx @ ?dat"
    using lp(2) by (metis append_eq_conv_conj)
  then have 7: "le_int (take 8 (drop (nat (header_end r) - 8) bytes)) = data_offset r"
    by (simp add: length_le_bytes le_int_le_bytes [OF dof])
  have b2: "bytes = header_bytes ?W ?H ?t lods (index_offset r) (data_offset r) @ ?idx @ ?dat"
    using Y(4) by simp
  have lh: "length (header_bytes ?W ?H ?t lods (index_offset r) (data_offset r)) = nat (index_offset r)"
    by (simp add: length_header_bytes Y(2) he)
  have d8: "drop (nat (index_offset r)) bytes = ?idx @ ?dat"
    using b2 lh by (metis append_eq_conv_conj)
  have 8: "take (36 * length (index_entries r)) (drop (nat (index_offset r)) bytes) = ?idx"
    unfolding d8 by (simp add: length_concat_entry_bytes)
  have b3: "bytes = (header_bytes ?W ?H ?t lods (index_offset r) (data_offset r) @ ?idx) @ ?dat"
    using b2 by simp
  have ld: "length (header_bytes ?W ?H ?t lods (index_offset r) (data_offset r) @ ?idx) =
      nat (data_offset r)"
  proof -
    have "nat (data_offset r) = nat (index_offset r) + 36 * length (index_entries r)"
      using io(1) by (simp add: Y(3) nat_add_distrib nat_mult_distrib)
    then show ?thesis by (simp only: length_append lh length_concat_entry_bytes)
  qed
  have 9: "drop (nat (data_offset r)) bytes = ?dat"
    using b3 ld by (metis append_eq_conv_conj)
  from 1 2 3 4 h1 5 6 7 8 9 show ?thesis by blast
qed

theorem pack_offsets_patched_witness:
  "\<exists>r bytes. pack_atlas_3d demo_pil [''a'', ''b'', ''c'', ''d''] 2 [2, 1] = (Inr r, Some bytes) \<and>
     index_offset r = 64 \<and> data_offset r = 1072 \<and> data_offset r \<le> int (length bytes) \<and>
     le_int (take 8 (drop 48 bytes)) = 64 \<and> le_int (take 8 (drop 56 bytes)) = 1072 \<and>
     drop 1072 bytes = concat (tile_data_blobs r)"
proof -
  from demo_run obtain r bytes where
    run: "pack_atlas_3d demo_pil [''a'', ''b'', ''c'', ''d''] 2 [2, 1] = (Inr r, Some bytes)"
    and d: "src_width r = 5" "src_height r = 3" by blast
  have ne: "[2, 1 :: int] \<noteq> []" by simp
  have fit: "\<forall>s \<in> set [2, 1]. s \<le> src_width r \<and> s \<le> src_height r" by (simp add: d)
  note T = pack_offsets_patched [OF run ne fit]
  have n: "length (index_entries r) = 28"
    unfolding pack_run_count [OF run] d
    by (simp add: num_entries_def tiles_per_layer_def lod_dim_def ceil_quot_def)
  have he: "header_end r = 64" "index_offset r = 64"
    using pack_run_layout(1,2) [OF run] by simp_all
  from T he n have "data_offset r = 1072" by simp
  with T he run show ?thesis by auto
qed

subsection \<open>LOD rasters and tile sizes\<close>

lemma ceil_quot_div:
  assumes "0 < t"
  shows "ceil_quot a t = (if a mod t = 0 then a div t else a div t + 1)"
proof -
  define q where "q = a div t"
  define m where "m = a mod t"
  define c where "c = ceil_quot a t"
  have b: "(c - 1) * t < a" "a \<le> c * t"
    using ceil_quot_bounds [OF assms, of a] by (simp_all add: c_def)
  have e: "a = q * t + m" by (simp add: q_def m_def)
  have m: "0 \<le> m" "m < t" using assms by (simp_all add: m_def)
  show ?thesis
  proof (cases "m = 0")
    case True
    with e have a: "a = q * t" by simp
    have "(c - 1) * t < q * t" "q * t \<le> c * t" using b a by simp_all
    then have "c - 1 < q" "q \<le> c"
      using assms by (simp_all add: mult_less_cancel_right mult_le_cancel_right)
    with True show ?thesis by (simp add: c_def [symmetric] q_def [symmetric] m_def [symmetric])
  next
    case False
    with m have p: "0 < m" by simp
    have "a < (q + 1) * t" using e m(2) by (simp add: algebra_simps)
    with b(1) have "(c - 1) * t < (q + 1) * t" by linarith
    moreover have "q * t < c * t" using b(2) e p by linarith
    ultimately have "c - 1 < q + 1" "q < c"
      using assms by (simp_all add: mult_less_cancel_right)
    with False show ?thesis by (simp add: c_def [symmetric] q_def [symmetric] m_def [symmetric])
  qed
qed

lemma tile_extent_eq:
  assumes t: "0 < t" and tx: "0 \<le> tx" "tx < ceil_quot W t"
  shows "min (tx * t + t) W - tx * t =
         (if tx = ceil_quot W t - 1 \<and> W mod t \<noteq> 0 then W mod t else t)"
proof (cases "tx = ceil_quot W t - 1 \<and> W mod t \<noteq> 0")
  case True
  define q where "q = W div t"
  define m where "m = W mod t"
  have e: "W = q * t + m" by (simp add: q_def m_def)
  have m: "m < t" using t by (simp add: m_def)
  have "tx = q" using True ceil_quot_div [OF t, of W] by (simp add: q_def)
  then have "W < tx * t + t" "W - tx * t = m" using e m by simp_all
  with True show ?thesis by (simp add: m_def)
next
  case False
  have "tx * t + t \<le> W"
  proof (cases "tx = ceil_quot W t - 1")
    case True
    with False have z: "W mod t = 0" by simp
    then have "ceil_quot W t = W div t" using ceil_quot_div [OF t, of W] by simp
    with True have "tx + 1 = W div t" by simp
    then have "(tx + 1) * t = W div t * t" by simp
    then have "tx * t + t = W div t * t" by (simp only: distrib_right mult_1)
    also have "\<dots> = W" using z div_mult_mod_eq [of W t] by (simp only: add_0_right)
    finally show ?thesis by simp
  next
    case False
    with tx have "tx + 1 \<le> ceil_quot W t - 1" by simp
    then have "(tx + 1) * t \<le> (ceil_quot W t - 1) * t" using t by (simp add: mult_right_mono)
    with ceil_quot_bounds(1) [OF t, of W] show ?thesis by (simp add: algebra_simps)
  qed
  then have "min (tx * t + t) W - tx * t = t" by simp
  then show ?thesis by (simp only: False if_False)
qed

lemma pack_run_entry_shape:
  assumes run: "pack_atlas_3d L paths t lods = (Inr r, out)"
    and e: "e \<in> set (index_entries r)"
  shows "\<exists>s \<in> set lods. \<exists>z base tx ty ro. z < 4 \<and>
           0 \<le> tx \<and> tx < ceil_quot (lod_dim (src_width r) s) t \<and>
           0 \<le> ty \<and> ty < ceil_quot (lod_dim (src_height r) s) t \<and>
           e = (tile_entry L s (int z) base
                  (tile_of (lod_dim (src_width r) s) (lod_dim (src_height r) s) t tx ty))
                 \<lparr>rel_offset := Some ro\<rparr>"
proof -
  let ?es0 = "concat (map (lod_entries L (base_images r) t) lods)"
  note E = pack_run_entries [OF run]
  note B = pack_run_bounds(5) [OF run]
  from e obtain k where k: "k < length (index_entries r)" and ek: "e = index_entries r ! k"
    by (auto simp: in_set_conv_nth)
  from E(3) k ek obtain ro where e0: "e = (?es0 ! k)\<lparr>rel_offset := Some ro\<rparr>" by blast
  have "k < length ?es0" using k E(2) by simp
  then have "?es0 ! k \<in> set ?es0" by (rule nth_mem)
  then obtain s where s: "s \<in> set lods"
    and m: "?es0 ! k \<in> set (lod_entries L (base_images r) t s)" by auto
  from B s have rd: "\<forall>b \<in> set (lod_rasters L (base_images r) s).
        width b = lod_dim (src_width r) s \<and> height b = lod_dim (src_height r) s"
    and r4: "length (lod_rasters L (base_images r) s) = 4" by blast+
  from lod_entries_member [OF m rd] r4 e0 s show ?thesis by metis
qed

lemma map_by_key:
  assumes "\<forall>e \<in> set es. f e = g (key e)"
  shows "map (\<lambda>e. (key e, f e)) es = map (\<lambda>k. (k, g k)) (map key es)"
  using assms by (induction es) simp_all

text \<open>
  C4. In a successful run, for every supplied LOD factor \<open>s\<close> the four rasters that are
  tiled are the base layers themselves when \<open>s = 1\<close> and have size
  \<open>(W div s) \<times> (H div s)\<close> otherwise; the index holds exactly one entry for every tile
  of every layer of every LOD raster, in the order of the loops; and every index entry
  records a tile of \<open>tile_px\<close> pixels on each axis, except in the last column (row) when
  the raster's width (height) is not a multiple of \<open>tile_px\<close>, where it records the
  remainder.
\<close>

theorem pack_lod_rasters_and_tile_sizes:
  assumes run: "pack_atlas_3d L src_png_paths tile_px lods = (Inr r, Some bytes)"
  shows "(\<forall>s \<in> set lods. 1 \<le> s \<and>
            (\<exists>rasters. downsample_layers L (base_images r) s [0..NUM_LAYERS - 1] = Inr rasters \<and>
               length rasters = 4 \<and>
               (\<forall>b \<in> set rasters.
                  width b = (if s = 1 then src_width r else src_width r div s) \<and>
                  height b = (if s = 1 then src_height r else src_height r div s)) \<and>
               (s = 1 \<longrightarrow> rasters = base_images r))) \<and>
         map entry_key (index_entries r) =
           concat (map (lod_keys (src_width r) (src_height r) tile_px) lods) \<and>
         (\<forall>e \<in> set (index_entries r). e_lod e \<in> set lods \<and>
            pixel_w e =
              (if tile_x e = ceil_quot (lod_dim (src_width r) (e_lod e)) tile_px - 1 \<and>
                  lod_dim (src_width r) (e_lod e) mod tile_px \<noteq> 0
               then lod_dim (src_width r) (e_lod e) mod tile_px else tile_px) \<and>
            pixel_h e =
              (if tile_y e = ceil_quot (lod_dim (src_height r) (e_lod e)) tile_px - 1 \<and>
                  lod_dim (src_height r) (e_lod e) mod tile_px \<noteq> 0
               then lod_dim (src_height r) (e_lod e) mod tile_px else tile_px))"
proof (intro conjI ballI)
  fix s assume s: "s \<in> set lods"
  from pack_run_bounds(4) [OF run] s show "1 \<le> s" by simp
  from pack_run_bounds(5) [OF run] s
  show "\<exists>rasters. downsample_layers L (base_images r) s [0..NUM_LAYERS - 1] = Inr rasters \<and>
               length rasters = 4 \<and>
               (\<forall>b \<in> set rasters.
                  width b = (if s = 1 then src_width r else src_width r div s) \<and>
                  height b = (if s = 1 then src_height r else src_height r div s)) \<and>
               (s = 1 \<longrightarrow> rasters = base_images r)"
    unfolding lod_dim_def by blast
next
  show "map entry_key (index_entries r) =
      concat (map (lod_keys (src_width r) (src_height r) tile_px) lods)"
    by (rule pack_run_keys [OF run])
next
  fix e assume e: "e \<in> set (index_entries r)"
  have t: "0 < tile_px" using pack_run_bounds(3) [OF run] by simp
  from pack_run_entry_shape [OF run e] obtain s z base tx ty ro where
    s: "s \<in> set lods" and
    tx: "0 \<le> tx" "tx < ceil_quot (lod_dim (src_width r) s) tile_px" and
    ty: "0 \<le> ty" "ty < ceil_quot (lod_dim (src_height r) s) tile_px" and
    e0: "e = (tile_entry L s (int z) base
                (tile_of (lod_dim (src_width r) s) (lod_dim (src_height r) s) tile_px tx ty))
               \<lparr>rel_offset := Some ro\<rparr>"
    by blast
  have f: "e_lod e = s" "tile_x e = tx" "tile_y e = ty"
    by (simp_all add: e0 tile_entry_fields tile_of_def)
  have pw: "pixel_w e = min (tx * tile_px + tile_px) (lod_dim (src_width r) s) - tx * tile_px"
    and ph: "pixel_h e = min (ty * tile_px + tile_px) (lod_dim (src_height r) s) - ty * tile_px"
    by (simp_all add: e0 tile_entry_pixels)
  show "e_lod e \<in> set lods" using s f by simp
  show "pixel_w e =
      (if tile_x e = ceil_quot (lod_dim (src_width r) (e_lod e)) tile_px - 1 \<and>
          lod_dim (src_width r) (e_lod e) mod tile_px \<noteq> 0
       then lod_dim (src_width r) (e_lod e) mod tile_px else tile_px)"
    unfolding f pw by (rule tile_extent_eq [OF t tx])
  show "pixel_h e =
      (if tile_y e = ceil_quot (lod_dim (src_height r) (e_lod e)) tile_px - 1 \<and>
          lod_dim (src_height r) (e_lod e) mod tile_px \<noteq> 0
       then lod_dim (src_height r) (e_lod e) mod tile_px else tile_px)"
    unfolding f ph by (rule tile_extent_eq [OF t ty])
qed

theorem pack_lod_rasters_and_tile_sizes_witness:
  "\<exists>r bytes. pack_atlas_3d demo_pil [''a'', ''b'', ''c'', ''d''] 2 [2, 1] = (Inr r, Some bytes) \<and>
     length (index_entries r) = 28 \<and>
     map (\<lambda>e. (entry_key e, pixel_w e, pixel_h e)) (index_entries r) =
       [((2, 0, 0, 0), 2, 1), ((2, 1, 0, 0), 2, 1), ((2, 2, 0, 0), 2, 1), ((2, 3, 0, 0), 2, 1),
        ((1, 0, 0, 0), 2, 2), ((1, 0, 1, 0), 2, 2), ((1, 0, 2, 0), 1, 2),
        ((1, 0, 0, 1), 2, 1), ((1, 0, 1, 1), 2, 1), ((1, 0, 2, 1), 1, 1),
        ((1, 1, 0, 0), 2, 2), ((1, 1, 1, 0), 2, 2), ((1, 1, 2, 0), 1, 2),
        ((1, 1, 0, 1), 2, 1), ((1, 1, 1, 1), 2, 1), ((1, 1, 2, 1), 1, 1),
        ((1, 2, 0, 0), 2, 2), ((1, 2, 1, 0), 2, 2), ((1, 2, 2, 0), 1, 2),
        ((1, 2, 0, 1), 2, 1), ((1, 2, 1, 1), 2, 1), ((1, 2, 2, 1), 1, 1),
        ((1, 3, 0, 0), 2, 2), ((1, 3, 1, 0), 2, 2), ((1, 3, 2, 0), 1, 2),
        ((1, 3, 0, 1), 2, 1), ((1, 3, 1, 1), 2, 1), ((1, 3, 2, 1), 1, 1)] \<and>
     (\<exists>rasters. downsample_layers demo_pil (base_images r) 2 [0..NUM_LAYERS - 1] = Inr rasters \<and>
        map (\<lambda>b. (width b, height b)) rasters = [(2, 1), (2, 1), (2, 1), (2, 1)])"
proof -
  from demo_run obtain r bytes where
    run: "pack_atlas_3d demo_pil [''a'', ''b'', ''c'', ''d''] 2 [2, 1] = (Inr r, Some bytes)"
    and d: "src_width r = 5" "src_height r = 3" by blast
  note T = pack_lod_rasters_and_tile_sizes [OF run, unfolded d]
  define g :: "int \<times> int \<times> int \<times> int \<Rightarrow> int \<times> int" where
    "g = (\<lambda>(s, z, tx, ty).
       (if tx = ceil_quot (lod_dim 5 s) 2 - 1 \<and> lod_dim 5 s mod 2 \<noteq> 0
        then lod_dim 5 s mod 2 else 2,
        if ty = ceil_quot (lod_dim 3 s) 2 - 1 \<and> lod_dim 3 s mod 2 \<noteq> 0
        then lod_dim 3 s mod 2 else 2))"
  have keys: "map entry_key (index_entries r) = concat (map (lod_keys 5 3 2) [2, 1])"
    using T by blast
  have sizes: "\<forall>e \<in> set (index_entries r). (pixel_w e, pixel_h e) = g (entry_key e)"
    using T by (simp add: g_def entry_key_def)
  have K: "concat (map (lod_keys 5 3 2) [2, 1]) =
      [(2, 0, 0, 0), (2, 1, 0, 0), (2, 2, 0, 0), (2, 3, 0, 0),
       (1, 0, 0, 0), (1, 0, 1, 0), (1, 0, 2, 0), (1, 0, 0, 1), (1, 0, 1, 1), (1, 0, 2, 1),
       (1, 1, 0, 0), (1, 1, 1, 0), (1, 1, 2, 0), (1, 1, 0, 1), (1, 1, 1, 1), (1, 1, 2, 1),
       (1, 2, 0, 0), (1, 2, 1, 0), (1, 2, 2, 0), (1, 2, 0, 1), (1, 2, 1, 1), (1, 2, 2, 1),
       (1, 3, 0, 0), (1, 3, 1, 0), (1, 3, 2, 0), (1, 3, 0, 1), (1, 3, 1, 1), (1, 3, 2, 1)]"
    by (simp add: lod_keys_def raster_tiles_def tile_of_def lod_dim_def ceil_quot_def
        upt_conv_Cons)
  have len: "length (index_entries r) = 28"
    using arg_cong [OF keys, of length] unfolding K by simp
  have all: "map (\<lambda>e. (entry_key e, pixel_w e, pixel_h e)) (index_entries r) =
      map (\<lambda>k. (k, g k)) (concat (map (lod_keys 5 3 2) [2, 1]))"
    using map_by_key [where key = entry_key and g = g and f = "\<lambda>e. (pixel_w e, pixel_h e)", OF sizes]
    unfolding keys .
  have list: "map (\<lambda>e. (entry_key e, pixel_w e, pixel_h e)) (index_entries r) =
       [((2, 0, 0, 0), 2, 1), ((2, 1, 0, 0), 2, 1), ((2, 2, 0, 0), 2, 1), ((2, 3, 0, 0), 2, 1),
        ((1, 0, 0, 0), 2, 2), ((1, 0, 1, 0), 2, 2), ((1, 0, 2, 0), 1, 2),
        ((1, 0, 0, 1), 2, 1), ((1, 0, 1, 1), 2, 1), ((1, 0, 2, 1), 1, 1),
        ((1, 1, 0, 0), 2, 2), ((1, 1, 1, 0), 2, 2), ((1, 1, 2, 0), 1, 2),
        ((1, 1, 0, 1), 2, 1), ((1, 1, 1, 1), 2, 1), ((1, 1, 2, 1), 1, 1),
        ((1, 2, 0, 0), 2, 2), ((1, 2, 1, 0), 2, 2), ((1, 2, 2, 0), 1, 2),
        ((1, 2, 0, 1), 2, 1), ((1, 2, 1, 1), 2, 1), ((1, 2, 2, 1), 1, 1),
        ((1, 3, 0, 0), 2, 2), ((1, 3, 1, 0), 2, 2), ((1, 3, 2, 0), 1, 2),
        ((1, 3, 0, 1), 2, 1), ((1, 3, 1, 1), 2, 1), ((1, 3, 2, 1), 1, 1)]"
    unfolding all K by (simp add: g_def lod_dim_def ceil_quot_def)
  from T obtain rasters where
    ds: "downsample_layers demo_pil (base_images r) 2 [0..NUM_LAYERS - 1] = Inr rasters"
    and l4: "length rasters = 4"
    and dm: "\<forall>b \<in> set rasters. width b = (if (2::int) = 1 then 5 else 5 div 2) \<and>
                height b = (if (2::int) = 1 then 3 else 3 div 2)"
    by auto
  have "map (\<lambda>b. (width b, height b)) rasters = map (\<lambda>b. (2, 1)) rasters"
    using dm by (intro map_cong [OF refl]) simp
  also have "\<dots> = replicate (length rasters) (2, 1)" by (simp add: map_replicate_const)
  also have "\<dots> = [(2, 1), (2, 1), (2, 1), (2, 1)]" unfolding l4 by (simp add: numeral_eq_Suc)
  finally have rs: "map (\<lambda>b. (width b, height b)) rasters = [(2, 1), (2, 1), (2, 1), (2, 1)]" .
  have inner: "\<exists>rasters. downsample_layers demo_pil (base_images r) 2 [0..NUM_LAYERS - 1] = Inr rasters \<and>
        map (\<lambda>b. (width b, height b)) rasters = [(2, 1), (2, 1), (2, 1), (2, 1)]"
    by (intro exI [of _ rasters] conjI ds rs)
  show ?thesis by (intro exI [of _ r] exI [of _ bytes] conjI run len list inner)
qed

subsection \<open>The order of the LODs\<close>

lemma lod_keys_fst: "k \<in> set (lod_keys W H t s) \<Longrightarrow> fst k = s"
  by (auto simp: lod_keys_def)

lemma map_fst_lod_keys:
  "map fst (lod_keys W H t s) = replicate (4 * tiles_per_layer W H t s) s"
proof -
  have "\<forall>y \<in> set (map fst (lod_keys W H t s)). y = s"
    using lod_keys_fst by fastforce
  from replicate_length_same [OF this] show ?thesis
    by (simp add: length_lod_keys)
qed

lemma pack_run_lods:
  assumes run: "pack_atlas_3d L paths t lods = (Inr r, out)"
  shows "map e_lod (index_entries r) =
         concat (map (\<lambda>s. replicate (4 * tiles_per_layer (src_width r) (src_height r) t s) s)
                     lods)"
proof -
  have "map e_lod (index_entries r) = map fst (map entry_key (index_entries r))"
    by (simp add: entry_key_def comp_def)
  also have "\<dots> = concat (map (\<lambda>s. map fst (lod_keys (src_width r) (src_height r) t s)) lods)"
    unfolding pack_run_keys [OF run] by (simp add: map_concat comp_def)
  finally show ?thesis by (simp only: map_fst_lod_keys)
qed

lemma nth_packed_u32:
  "i < length vs \<Longrightarrow>
   take 4 (drop (4 * i) (concat (map (le_bytes 4) vs) @ rest)) = le_bytes 4 (vs ! i)"
proof (induction vs arbitrary: i)
  case Nil then show ?case by simp
next
  case (Cons v vs)
  show ?case
  proof (cases i)
    case 0 then show ?thesis by (simp add: length_le_bytes)
  next
    case (Suc j)
    with Cons.prems have j: "j < length vs" by simp
    have "drop (4 * i) (concat (map (le_bytes 4) (v # vs)) @ rest) =
          drop (4 * j) (concat (map (le_bytes 4) vs) @ rest)"
      by (simp add: Suc length_le_bytes)
    with Cons.IH [OF j] Suc show ?thesis by simp
  qed
qed

lemma pack_run_header:
  assumes run: "pack_atlas_3d L paths t lods = (Inr r, Some bytes)"
  shows "\<exists>rest. bytes = MAGIC @ le_bytes 4 VERSION @ le_bytes 4 (src_width r)
           @ le_bytes 4 (src_height r) @ le_bytes 4 t @ le_bytes 4 (int (length lods))
           @ concat (map (le_bytes 4) lods)
           @ le_bytes 4 (ceil_quot (src_width r) t) @ le_bytes 4 (ceil_quot (src_height r) t)
           @ rest"
    and "int (length lods) < 2 ^ 32"
    and "0 \<le> ceil_quot (src_width r) t \<and> ceil_quot (src_width r) t < 2 ^ 32"
    and "0 \<le> ceil_quot (src_height r) t \<and> ceil_quot (src_height r) t < 2 ^ 32"
proof -
  from pack_atlas_3d_Inr(4) [OF run] obtain f where
    wa: "write_atlas L (base_images r) (src_width r) (src_height r) t lods
           \<lparr>contents = [], position = 0\<rparr> = Inr (r, f)" by blast
  from write_atlas_Inr(15) [OF wa pack_atlas_3d_Inr(3) [OF run]] obtain f1 where
    h1: "write_header (src_width r) (src_height r) t lods \<lparr>contents = [], position = 0\<rparr> = Inr f1"
    by blast
  have p0: "position \<lparr>contents = [], position = 0\<rparr> = length (contents \<lparr>contents = [], position = 0\<rparr>)"
    by simp
  note Hd = write_header_Inr [OF h1 p0]
  show "int (length lods) < 2 ^ 32" by (rule Hd(4))
  show "0 \<le> ceil_quot (src_width r) t \<and> ceil_quot (src_width r) t < 2 ^ 32" by (rule Hd(6))
  show "0 \<le> ceil_quot (src_height r) t \<and> ceil_quot (src_height r) t < 2 ^ 32" by (rule Hd(7))
  show "\<exists>rest. bytes = MAGIC @ le_bytes 4 VERSION @ le_bytes 4 (src_width r)
           @ le_bytes 4 (src_height r) @ le_bytes 4 t @ le_bytes 4 (int (length lods))
           @ concat (map (le_bytes 4) lods)
           @ le_bytes 4 (ceil_quot (src_width r) t) @ le_bytes 4 (ceil_quot (src_height r) t)
           @ rest"
    using pack_run_layout(4) [OF run] by (simp add: header_bytes_def header_prefix_def)
qed

text \<open>
  C5. In a successful run the LOD values are taken in the order supplied: the header's
  LOD array holds them in that order, and the index entries come in one group per
  supplied value, group after group in that order, each group listing its tiles layer by
  layer and row-major.
\<close>

theorem pack_lod_order:
  assumes run: "pack_atlas_3d L src_png_paths tile_px lods = (Inr r, Some bytes)"
  shows "le_int (take 4 (drop 24 bytes)) = int (length lods) \<and>
         (\<forall>i < length lods. le_int (take 4 (drop (28 + 4 * i) bytes)) = lods ! i) \<and>
         map e_lod (index_entries r) =
           concat (map (\<lambda>s. replicate
                               (4 * tiles_per_layer (src_width r) (src_height r) tile_px s) s)
                       lods) \<and>
         map entry_key (index_entries r) =
           concat (map (lod_keys (src_width r) (src_height r) tile_px) lods)"
proof -
  note Hd = pack_run_header [OF run]
  from Hd(1) obtain rest where
    bytes: "bytes = MAGIC @ le_bytes 4 VERSION @ le_bytes 4 (src_width r)
           @ le_bytes 4 (src_height r) @ le_bytes 4 tile_px @ le_bytes 4 (int (length lods))
           @ concat (map (le_bytes 4) lods) @ rest"
    by auto
  have d24: "drop 24 bytes = le_bytes 4 (int (length lods)) @ concat (map (le_bytes 4) lods) @ rest"
    unfolding bytes by (simp add: MAGIC_def length_le_bytes)
  have d28: "drop 28 bytes = concat (map (le_bytes 4) lods) @ rest"
    unfolding bytes by (simp add: MAGIC_def length_le_bytes)
  have 1: "le_int (take 4 (drop 24 bytes)) = int (length lods)"
    unfolding d24 using Hd(2) by (simp add: length_le_bytes le_int_le_bytes)
  have 2: "\<forall>i < length lods. le_int (take 4 (drop (28 + 4 * i) bytes)) = lods ! i"
  proof (intro allI impI)
    fix i assume i: "i < length lods"
    have "drop (28 + 4 * i) bytes = drop (4 * i) (drop 28 bytes)"
      by (simp add: add.commute)
    then have "take 4 (drop (28 + 4 * i) bytes) = le_bytes 4 (lods ! i)"
      unfolding d28 using nth_packed_u32 [OF i] by simp
    moreover have "0 \<le> lods ! i \<and> lods ! i < 2 ^ 32"
    proof -
      have "lods ! i \<in> set lods" using i by (rule nth_mem)
      with pack_run_bounds(4) [OF run] show ?thesis by force
    qed
    ultimately show "le_int (take 4 (drop (28 + 4 * i) bytes)) = lods ! i"
      by (simp add: le_int_le_bytes)
  qed
  from 1 2 pack_run_lods [OF run] pack_run_keys [OF run] show ?thesis by blast
qed

theorem pack_lod_order_witness:
  "\<exists>r bytes. pack_atlas_3d demo_pil [''a'', ''b'', ''c'', ''d''] 2 [2, 1] = (Inr r, Some bytes) \<and>
     le_int (take 4 (drop 24 bytes)) = 2 \<and>
     le_int (take 4 (drop 28 bytes)) = 2 \<and> le_int (take 4 (drop 32 bytes)) = 1 \<and>
     map e_lod (index_entries r) = replicate 4 2 @ replicate 24 1"
proof -
  from demo_run obtain r bytes where
    run: "pack_atlas_3d demo_pil [''a'', ''b'', ''c'', ''d''] 2 [2, 1] = (Inr r, Some bytes)"
    and d: "src_width r = 5" "src_height r = 3" by blast
  note T = pack_lod_order [OF run, unfolded d]
  from T have a: "le_int (take 4 (drop 24 bytes)) = 2" by simp
  from T have all: "\<forall>i < length [2, 1 :: int].
      le_int (take 4 (drop (28 + 4 * i) bytes)) = [2, 1] ! i" by blast
  have b: "le_int (take 4 (drop 28 bytes)) = 2" "le_int (take 4 (drop 32 bytes)) = 1"
    using all [rule_format, of 0] all [rule_format, of 1] by simp_all
  from T have c: "map e_lod (index_entries r) = replicate 4 2 @ replicate 24 1"
    by (simp add: tiles_per_layer_def lod_dim_def ceil_quot_def)
  from run a b c show ?thesis by blast
qed

subsection \<open>An example: 300 by 300 layers\<close>

text \<open>
  C6. With layers of 300 by 300 pixels, tiles of edge 256 and the LODs 1 then 2, a
  successful run records \<open>tiles_x_full = tiles_y_full = 2\<close> in the header and produces 20
  index entries: 16 for LOD 1 (4 layers of 4 tiles) and 4 for LOD 2 (4 layers of 1 tile,
  the raster being 150 by 150).
\<close>

theorem pack_example_300:
  assumes run: "pack_atlas_3d L src_png_paths 256 [1, 2] = (Inr r, Some bytes)"
    and w: "src_width r = 300" and h: "src_height r = 300"
  shows "le_int (take 4 (drop 36 bytes)) = 2 \<and> le_int (take 4 (drop 40 bytes)) = 2 \<and>
         length (index_entries r) = 20 \<and>
         length (filter (\<lambda>e. e_lod e = 1) (index_entries r)) = 16 \<and>
         length (filter (\<lambda>e. e_lod e = 2) (index_entries r)) = 4 \<and>
         lod_dim 300 2 = 150 \<and> tiles_per_layer 300 300 256 1 = 4 \<and>
         tiles_per_layer 300 300 256 2 = 1"
proof -
  have cq: "ceil_quot 300 256 = 2" by (simp add: ceil_quot_def)
  from pack_run_header(1) [OF run] obtain rest where
    bytes: "bytes = MAGIC @ le_bytes 4 VERSION @ le_bytes 4 300 @ le_bytes 4 300 @ le_bytes 4 256
       @ le_bytes 4 (int (length [1, 2 :: int])) @ concat (map (le_bytes 4) [1, 2])
       @ le_bytes 4 2 @ le_bytes 4 2 @ rest"
    unfolding w h cq by blast
  have d36: "drop 36 bytes = le_bytes 4 2 @ le_bytes 4 2 @ rest"
    unfolding bytes by (simp add: MAGIC_def length_le_bytes)
  have two: "le_int (le_bytes 4 2) = 2" by (rule le_int_le_bytes) simp_all
  have 1: "le_int (take 4 (drop 36 bytes)) = 2"
    unfolding d36 by (simp add: length_le_bytes two)
  have "drop 40 bytes = drop 4 (drop 36 bytes)" by simp
  then have 2: "le_int (take 4 (drop 40 bytes)) = 2"
    unfolding d36 by (simp add: length_le_bytes two)
  have t1: "tiles_per_layer 300 300 256 1 = 4" and t2: "tiles_per_layer 300 300 256 2 = 1"
    and ld: "lod_dim 300 2 = 150"
    by (simp_all add: tiles_per_layer_def lod_dim_def ceil_quot_def)
  have lods: "map e_lod (index_entries r) = replicate 16 1 @ replicate 4 2"
    using pack_run_lods [OF run] by (simp add: w h t1 t2)
  have 3: "length (index_entries r) = 20"
    using arg_cong [OF lods, of length] by simp
  have f: "length (filter (\<lambda>e. e_lod e = v) (index_entries r)) =
      length (filter (\<lambda>x. x = v) (map e_lod (index_entries r)))" for v
    by (simp add: filter_map comp_def)
  have 4: "length (filter (\<lambda>e. e_lod e = 1) (index_entries r)) = 16"
    unfolding f lods by simp
  have 5: "length (filter (\<lambda>e. e_lod e = 2) (index_entries r)) = 4"
    unfolding f lods by simp
  from 1 2 3 4 5 ld t1 t2 show ?thesis by blast
qed

theorem pack_example_300_witness:
  "\<exists>r bytes.
     pack_atlas_3d (stub_pil (\<lambda>p. (300, 300)) (\<lambda>img. [7])) [''a'', ''b'', ''c'', ''d''] 256 [1, 2]
       = (Inr r, Some bytes) \<and>
     src_width r = 300 \<and> src_height r = 300 \<and>
     le_int (take 4 (drop 36 bytes)) = 2 \<and> le_int (take 4 (drop 40 bytes)) = 2 \<and>
     length (index_entries r) = 20"
proof -
  let ?L = "stub_pil (\<lambda>p. (300, 300)) (\<lambda>img. [7])"
  have "\<exists>r bytes. pack_atlas_3d ?L [''a'', ''b'', ''c'', ''d''] 256 [1, 2] = (Inr r, Some bytes) \<and>
     src_width r = 300 \<and> src_height r = 300"
  proof (rule pack_atlas_3d_succeeds)
    show "int (length [''a'', ''b'', ''c'', ''d'']) = NUM_LAYERS" by (simp add: NUM_LAYERS_def)
    show "\<forall>p \<in> set [''a'', ''b'', ''c'', ''d''].
        \<exists>img. Image_open ?L p = Inr img \<and> width img = 300 \<and> height img = 300"
      by (simp add: stub_pil_def)
    show "\<forall>s \<in> set [1, 2]. s \<noteq> 1 \<longrightarrow>
        (\<forall>img. \<exists>p. resize_px ?L (300 div s, 300 div s) img = Inr p)"
      by (simp add: stub_pil_def)
    show "\<forall>img. int (length (save_png ?L img)) < 2 ^ 32"
      by (simp add: stub_pil_def)
    show "int (num_entries 300 300 256 [1, 2]) < 2 ^ 31"
      by (simp add: num_entries_def tiles_per_layer_def lod_dim_def ceil_quot_def)
  qed simp_all
  then obtain r bytes where
    run: "pack_atlas_3d ?L [''a'', ''b'', ''c'', ''d''] 256 [1, 2] = (Inr r, Some bytes)"
    and d: "src_width r = 300" "src_height r = 300" by blast
  from pack_example_300 [OF run d] run d show ?thesis by blast
qed

subsection \<open>No deduplication of the LOD list\<close>

lemma count_list_concat:
  "count_list (concat xss) k = sum_list (map (\<lambda>xs. count_list xs k) xss)"
  by (induction xss) simp_all

lemma count_production_keys:
  "count_list (concat (map (lod_keys W H t) lods)) key =
   count_list lods (fst key) * count_list (lod_keys W H t (fst key)) key"
proof (induction lods)
  case Nil show ?case by simp
next
  case (Cons s lods)
  show ?case
  proof (cases "s = fst key")
    case True
    with Cons show ?thesis by simp
  next
    case False
    then have "key \<notin> set (lod_keys W H t s)" using lod_keys_fst by blast
    then have "count_list (lod_keys W H t s) key = 0" by (simp add: count_list_0_iff)
    with Cons False show ?thesis by simp
  qed
qed

lemma distinct_count_le_1: "distinct xs \<Longrightarrow> count_list xs x \<le> 1"
proof (induction xs)
  case Nil show ?case by simp
next
  case (Cons y ys)
  then show ?case by (cases "x = y") (simp_all add: count_list_0_iff)
qed

lemma lod_values_allowed_iff:
  "lod_values_allowed vs = Inr () \<longleftrightarrow> set vs \<subseteq> {1, 2, 4}"
  by (induction vs) auto

lemma main_check_lods_iff:
  "main_check_lods vs = Inr vs \<longleftrightarrow> vs \<noteq> [] \<and> set vs \<subseteq> {1, 2, 4}"
proof (cases "lod_values_allowed vs")
  case (Inl e)
  then have "\<not> set vs \<subseteq> {1, 2, 4}" using lod_values_allowed_iff [of vs] by simp
  with Inl show ?thesis by (simp add: main_check_lods_def)
next
  case (Inr u)
  then have "set vs \<subseteq> {1, 2, 4}" using lod_values_allowed_iff [of vs] by simp
  with Inr show ?thesis by (simp add: main_check_lods_def)
qed

text \<open>
  C10. The supplied LOD list is not deduplicated. In a successful run every occurrence
  of a value contributes its whole group of tiles again: a key \<open>(lod, z, tile_x, tile_y)\<close>
  occurs in the index as many times as its LOD value occurs in the list (times its
  occurrences within one group), so a value supplied more than once, with a non-empty
  raster, makes keys repeat. The check of the LOD list in \<open>main\<close> accepts exactly the
  non-empty lists over 1, 2 and 4, repeated values included.
\<close>

theorem pack_no_dedup:
  assumes run: "pack_atlas_3d L src_png_paths tile_px lods = (Inr r, Some bytes)"
  shows "map entry_key (index_entries r) =
           concat (map (lod_keys (src_width r) (src_height r) tile_px) lods) \<and>
         (\<forall>key. count_list (map entry_key (index_entries r)) key =
            count_list lods (fst key) *
              count_list (lod_keys (src_width r) (src_height r) tile_px (fst key)) key) \<and>
         (\<forall>s. length (filter (\<lambda>e. e_lod e = s) (index_entries r)) =
            count_list lods s * (4 * tiles_per_layer (src_width r) (src_height r) tile_px s)) \<and>
         (\<forall>s. 1 < count_list lods s \<and>
              0 < tiles_per_layer (src_width r) (src_height r) tile_px s \<longrightarrow>
              \<not> distinct (map entry_key (index_entries r))) \<and>
         (\<forall>vs. (main_check_lods vs = Inr vs) = (vs \<noteq> [] \<and> set vs \<subseteq> {1, 2, 4}))"
proof -
  let ?W = "src_width r" and ?H = "src_height r"
  let ?keys = "map entry_key (index_entries r)"
  note K = pack_run_keys [OF run]
  have cnt: "count_list ?keys key =
      count_list lods (fst key) * count_list (lod_keys ?W ?H tile_px (fst key)) key" for key
    unfolding K by (rule count_production_keys)
  have grp: "length (filter (\<lambda>e. e_lod e = s) (index_entries r)) =
      count_list lods s * (4 * tiles_per_layer ?W ?H tile_px s)" for s
  proof -
    have "length (filter (\<lambda>e. e_lod e = s) (index_entries r)) =
        length (filter (\<lambda>x. x = s) (map e_lod (index_entries r)))"
      by (simp add: filter_map comp_def)
    also have "\<dots> = count_list lods s * (4 * tiles_per_layer ?W ?H tile_px s)"
      unfolding pack_run_lods [OF run]
    proof (induction lods)
      case Nil show ?case by simp
    next
      case (Cons a lods)
      then show ?case by (cases "a = s") simp_all
    qed
    finally show ?thesis .
  qed
  have dup: "\<not> distinct ?keys"
    if "1 < count_list lods s \<and> 0 < tiles_per_layer ?W ?H tile_px s" for s
  proof
    assume d: "distinct ?keys"
    from that have "lod_keys ?W ?H tile_px s \<noteq> []"
      using length_lod_keys [of ?W ?H tile_px s] by auto
    then obtain key where key: "key \<in> set (lod_keys ?W ?H tile_px s)"
      by (cases "lod_keys ?W ?H tile_px s") auto
    then have fk: "fst key = s" by (rule lod_keys_fst)
    have "0 < count_list (lod_keys ?W ?H tile_px s) key"
      using key count_list_0_iff [of "lod_keys ?W ?H tile_px s" key] by simp
    then have "1 * 1 < count_list lods s * count_list (lod_keys ?W ?H tile_px s) key"
      using that by (intro mult_less_le_imp_less) simp_all
    then have "1 < count_list ?keys key" by (simp add: cnt fk)
    moreover have "count_list ?keys key \<le> 1"
      using d by (rule distinct_count_le_1)
    ultimately show False by simp
  qed
  from K cnt grp dup main_check_lods_iff show ?thesis by blast
qed

theorem pack_no_dedup_witness:
  "\<exists>r bytes. pack_atlas_3d demo_pil [''a'', ''b'', ''c'', ''d''] 2 [2, 2] = (Inr r, Some bytes) \<and>
     length (filter (\<lambda>e. e_lod e = 2) (index_entries r)) = 8 \<and>
     count_list (map entry_key (index_entries r)) (2, 0, 0, 0) = 2 \<and>
     \<not> distinct (map entry_key (index_entries r)) \<and>
     main_check_lods [2, 2] = Inr [2, 2]"
proof -
  have "\<exists>r bytes. pack_atlas_3d demo_pil [''a'', ''b'', ''c'', ''d''] 2 [2, 2] = (Inr r, Some bytes) \<and>
     src_width r = 5 \<and> src_height r = 3"
  proof (rule pack_atlas_3d_succeeds)
    show "int (length [''a'', ''b'', ''c'', ''d'']) = NUM_LAYERS" by (simp add: NUM_LAYERS_def)
    show "\<forall>p \<in> set [''a'', ''b'', ''c'', ''d''].
        \<exists>img. Image_open demo_pil p = Inr img \<and> width img = 5 \<and> height img = 3"
      by (simp add: demo_pil_def stub_pil_def)
    show "\<forall>s \<in> set [2, 2]. s \<noteq> 1 \<longrightarrow>
        (\<forall>img. \<exists>p. resize_px demo_pil (5 div s, 3 div s) img = Inr p)"
      by (simp add: demo_pil_def stub_pil_def)
    show "\<forall>img. int (length (save_png demo_pil img)) < 2 ^ 32"
      by (simp add: demo_pil_def stub_pil_def min_def)
    show "int (num_entries 5 3 2 [2, 2]) < 2 ^ 31"
      by (simp add: num_entries_def tiles_per_layer_def lod_dim_def ceil_quot_def)
  qed simp_all
  then obtain r bytes where
    run: "pack_atlas_3d demo_pil [''a'', ''b'', ''c'', ''d''] 2 [2, 2] = (Inr r, Some bytes)"
    and d: "src_width r = 5" "src_height r = 3" by blast
  note T = pack_no_dedup [OF run, unfolded d]
  have tp: "tiles_per_layer 5 3 2 2 = 1"
    by (simp add: tiles_per_layer_def lod_dim_def ceil_quot_def)
  have lk: "lod_keys 5 3 2 2 = [(2, 0, 0, 0), (2, 1, 0, 0), (2, 2, 0, 0), (2, 3, 0, 0)]"
    by (simp add: lod_keys_def raster_tiles_def tile_of_def lod_dim_def ceil_quot_def
        upt_conv_Cons)
  from T have a: "length (filter (\<lambda>e. e_lod e = 2) (index_entries r)) = 8"
    by (simp add: tp)
  from T have "count_list (map entry_key (index_entries r)) (2, 0, 0, 0) =
      count_list [2, 2] (fst (2 :: int, 0 :: int, 0 :: int, 0 :: int)) *
        count_list (lod_keys 5 3 2 (fst (2 :: int, 0 :: int, 0 :: int, 0 :: int))) (2, 0, 0, 0)"
    by blast
  then have b: "count_list (map entry_key (index_entries r)) (2, 0, 0, 0) = 2"
    by (simp add: lk)
  from T have "1 < count_list [2, 2 :: int] 2 \<and> 0 < tiles_per_layer 5 3 2 2 \<longrightarrow>
      \<not> distinct (map entry_key (index_entries r))" by blast
  then have c: "\<not> distinct (map entry_key (index_entries r))" by (simp add: tp)
  from T have e: "main_check_lods [2, 2] = Inr [2, 2]" by simp
  from run a b c e show ?thesis by blast
qed

end
